theory Spec2Isabelle
  imports Main "HOL-Library.Monad_Syntax"
begin

section \<open>JavaScript values used by NeoChessBoard.js\<close>

text \<open>
  A board cell holds a one-character string (the FEN piece letter) or \<open>null\<close>; it is a
  \<open>char option\<close>. Strings are ASCII character lists. A call that raises a \<open>TypeError\<close>
  (reading or writing a property of \<open>undefined\<close>) has the value \<open>None\<close>; so has a loop
  that does not return. The counters are JavaScript numbers: an integer or \<open>NaN\<close>
  (what \<open>parseInt\<close> gives on a field without digits); the precision loss of doubles
  beyond \<open>2^53\<close> is not modelled.
\<close>

type_synonym piece = char
type_synonym row = "piece option list"
type_synonym board = "row list"

datatype jsnum = NaN | Num int

record state =
  board :: board
  turn :: string
  castling :: string
  ep :: string
  halfmove :: jsnum
  fullmove :: jsnum

definition lower_letters :: "char list" where
  "lower_letters = ''abcdefghijklmnopqrstuvwxyz''"

definition upper_letters :: "char list" where
  "upper_letters = ''ABCDEFGHIJKLMNOPQRSTUVWXYZ''"

definition toUpperCase :: "char \<Rightarrow> char" where
  "toUpperCase c = (case map_of (zip lower_letters upper_letters) c of None \<Rightarrow> c | Some u \<Rightarrow> u)"

definition toLowerCase :: "char \<Rightarrow> char" where
  "toLowerCase c = (case map_of (zip upper_letters lower_letters) c of None \<Rightarrow> c | Some l \<Rightarrow> l)"

definition FILES :: "char list" where
  "FILES = ''abcdefgh''"

definition RANKS :: "char list" where
  "RANKS = ''12345678''"

text \<open>\<open>isWhitePiece\<close> on a non-empty cell: \<open>p === p.toUpperCase()\<close>.\<close>

definition isWhitePiece :: "piece \<Rightarrow> bool" where
  "isWhitePiece p = (p = toUpperCase p)"

text \<open>\<open>s[i]\<close> on a string and \<open>xs[i]\<close> on an array: \<open>undefined\<close> out of range.\<close>

definition char_at :: "string \<Rightarrow> nat \<Rightarrow> char option" where
  "char_at s i = (if i < length s then Some (s ! i) else None)"

definition nth_opt :: "'a list \<Rightarrow> int \<Rightarrow> 'a option" where
  "nth_opt xs i = (if 0 \<le> i \<and> i < int (length xs) then Some (xs ! nat i) else None)"

fun index_from :: "char list \<Rightarrow> char \<Rightarrow> int \<Rightarrow> int" where
  "index_from [] c i = - 1"
| "index_from (x # xs) c i = (if x = c then i else index_from xs c (i + 1))"

definition indexOf :: "char list \<Rightarrow> char option \<Rightarrow> int" where
  "indexOf xs co = (case co of None \<Rightarrow> - 1 | Some c \<Rightarrow> index_from xs c 0)"

text \<open>
  \<open>sq(file, rank) = FILES[file] + RANKS[rank]\<close>. Out of range an operand is
  \<open>undefined\<close>, which \<open>+\<close> renders as the text "undefined" beside a string; with both
  operands undefined the sum is the number \<open>NaN\<close>, written here as the text "NaN".
\<close>

definition stringified :: "char list \<Rightarrow> int \<Rightarrow> string" where
  "stringified xs i = (case nth_opt xs i of None \<Rightarrow> ''undefined'' | Some c \<Rightarrow> [c])"

definition sq :: "int \<Rightarrow> int \<Rightarrow> string" where
  "sq file rank =
     (if nth_opt FILES file = None \<and> nth_opt RANKS rank = None then ''NaN''
      else stringified FILES file @ stringified RANKS rank)"

definition sqToFR :: "string \<Rightarrow> int \<times> int" where
  "sqToFR square = (indexOf FILES (char_at square 0), indexOf RANKS (char_at square 1))"

text \<open>
  \<open>board[r][f]\<close>: the outer \<open>None\<close> is the \<open>TypeError\<close> when \<open>board[r]\<close> is undefined,
  the inner one is an empty cell (\<open>null\<close>, or \<open>undefined\<close> beyond the row).
\<close>

definition at :: "board \<Rightarrow> int \<Rightarrow> int \<Rightarrow> piece option option" where
  "at b r f = (case nth_opt b r of None \<Rightarrow> None
               | Some rw \<Rightarrow> Some (case nth_opt rw f of None \<Rightarrow> None | Some c \<Rightarrow> c))"

text \<open>
  \<open>row[f] = v\<close>: an index past the end extends the array, the gap reading as
  \<open>undefined\<close>. A negative index would set a property and leave the elements alone.
\<close>

definition js_set :: "row \<Rightarrow> int \<Rightarrow> piece option \<Rightarrow> row" where
  "js_set rw f v =
     (if f < 0 then rw
      else if f < int (length rw) then rw[nat f := v]
      else rw @ replicate (nat f - length rw) None @ [v])"

definition put :: "board \<Rightarrow> int \<Rightarrow> int \<Rightarrow> piece option \<Rightarrow> board option" where
  "put b r f v = (case nth_opt b r of None \<Rightarrow> None
                  | Some rw \<Rightarrow> Some (b[nat r := js_set rw f v]))"

section \<open>Numbers and text\<close>

definition DIGITS :: "char list" where
  "DIGITS = ''0123456789''"

definition digit_char :: "nat \<Rightarrow> char" where
  "digit_char d = DIGITS ! d"

definition is_digit :: "char \<Rightarrow> bool" where
  "is_digit c = (c \<in> set DIGITS)"

definition digit_val :: "char \<Rightarrow> nat" where
  "digit_val c = nat (index_from DIGITS c 0)"

fun digits :: "nat \<Rightarrow> string" where
  "digits n = (if n < 10 then [digit_char n] else digits (n div 10) @ [digit_char (n mod 10)])"

declare digits.simps [simp del]

text \<open>\<open>String(n)\<close> for an integer.\<close>

definition String_of :: "int \<Rightarrow> string" where
  "String_of n = (if n < 0 then CHR ''-'' # digits (nat (- n)) else digits (nat n))"

definition is_ws :: "char \<Rightarrow> bool" where
  "is_ws c = (c \<in> set [CHR 0x09, CHR 0x0A, CHR 0x0B, CHR 0x0C, CHR 0x0D, CHR '' ''])"

text \<open>\<open>parseInt(s, 10)\<close>: leading white space, a sign, then the longest digit prefix.\<close>

definition parseInt :: "string \<Rightarrow> jsnum" where
  "parseInt s =
     (let t = dropWhile is_ws s;
          neg = (t \<noteq> [] \<and> hd t = CHR ''-'');
          u = (if t \<noteq> [] \<and> (hd t = CHR ''-'' \<or> hd t = CHR ''+'') then tl t else t);
          ds = takeWhile is_digit u
      in if ds = [] then NaN
         else let v = int (foldl (\<lambda>a c. 10 * a + digit_val c) 0 ds)
              in Num (if neg then - v else v))"

definition trim :: "string \<Rightarrow> string" where
  "trim s = rev (dropWhile is_ws (rev (dropWhile is_ws s)))"

text \<open>\<open>s.split(/\s+/)\<close>: a run of white space is one separator.\<close>

fun split_ws :: "string \<Rightarrow> string list" where
  "split_ws [] = [[]]"
| "split_ws (c # cs) =
     (if is_ws c then (if cs \<noteq> [] \<and> is_ws (hd cs) then split_ws cs else [] # split_ws cs)
      else (case split_ws cs of [] \<Rightarrow> [[c]] | w # ws \<Rightarrow> (c # w) # ws))"

text \<open>\<open>s.split("/")\<close>.\<close>

fun split_on :: "char \<Rightarrow> string \<Rightarrow> string list" where
  "split_on d [] = [[]]"
| "split_on d (c # cs) =
     (if c = d then [] # split_on d cs
      else (case split_on d cs of [] \<Rightarrow> [[c]] | w # ws \<Rightarrow> (c # w) # ws))"

text \<open>\<open>rows.join("/")\<close>.\<close>

fun join :: "string \<Rightarrow> string list \<Rightarrow> string" where
  "join d [] = []"
| "join d [x] = x"
| "join d (x # y # ys) = x @ d @ join d (y # ys)"

text \<open>\<open>x || d\<close> on a string that may be undefined: undefined and "" are falsy.\<close>

definition or_default :: "string option \<Rightarrow> string \<Rightarrow> string" where
  "or_default x d = (case x of None \<Rightarrow> d | Some s \<Rightarrow> if s = [] then d else s)"

text \<open>\<open>n || d\<close> on a number: \<open>NaN\<close> and 0 are falsy.\<close>

definition num_or :: "jsnum \<Rightarrow> int \<Rightarrow> int" where
  "num_or x d = (case x of NaN \<Rightarrow> d | Num n \<Rightarrow> if n = 0 then d else n)"

section \<open>FEN parsing and printing\<close>

text \<open>
  The inner loop of \<open>parseFEN\<close> over the characters of one rank: a digit 1 to 8 advances
  the column, any other character is stored and the column advances by one.
\<close>

fun parse_row :: "row \<Rightarrow> nat \<Rightarrow> string \<Rightarrow> row" where
  "parse_row rw c [] = rw"
| "parse_row rw c (ch # rest) =
     (if ch \<in> set ''12345678''
      then parse_row rw (c + digit_val ch) rest
      else parse_row (js_set rw (int c) (Some ch)) (c + 1) rest)"

definition parseFEN :: "string \<Rightarrow> state option" where
  "parseFEN fen =
     (let parts = split_ws (trim fen);
          boardPart = parts ! 0;
          rows = split_on CHR ''/'' boardPart
      in do {
        b \<leftarrow> those (map (\<lambda>r. map_option (parse_row (replicate 8 None) 0) (nth_opt rows (7 - int r))) [0..<8]);
        Some \<lparr> board = b,
               turn = or_default (nth_opt parts 1) ''w'',
               castling = or_default (nth_opt parts 2) ''-'',
               ep = or_default (nth_opt parts 3) ''-'',
               halfmove = parseInt (or_default (nth_opt parts 4) ''0''),
               fullmove = parseInt (or_default (nth_opt parts 5) ''1'') \<rparr>
      })"

text \<open>The inner loop of \<open>boardToFEN\<close> over the eight cells of a rank, then the flush.\<close>

fun enc_row :: "piece option list \<Rightarrow> string \<Rightarrow> nat \<Rightarrow> string" where
  "enc_row [] s e = (if e \<noteq> 0 then s @ String_of (int e) else s)"
| "enc_row (None # ps) s e = enc_row ps s (e + 1)"
| "enc_row (Some p # ps) s e = enc_row ps ((if e \<noteq> 0 then s @ String_of (int e) else s) @ [p]) 0"

definition rank_cells :: "row \<Rightarrow> piece option list" where
  "rank_cells rw = map (\<lambda>f. case nth_opt rw (int f) of None \<Rightarrow> None | Some c \<Rightarrow> c) [0..<8]"

definition boardToFEN :: "state \<Rightarrow> string option" where
  "boardToFEN st = do {
     rows \<leftarrow> those (map (\<lambda>r. map_option (\<lambda>rw. enc_row (rank_cells rw) [] 0) (nth_opt (board st) (int r)))
                       (rev [0..<8]));
     Some (join ''/'' rows @ '' '' @ turn st @ '' '' @ (if castling st = [] then ''-'' else castling st)
           @ '' '' @ (if ep st = [] then ''-'' else ep st)
           @ '' '' @ String_of (num_or (halfmove st) 0)
           @ '' '' @ String_of (num_or (fullmove st) 1))
   }"

definition START_FEN :: string where
  "START_FEN = ''rnbqkbnr/pppppppp/8/8/8/8/PPPPPPPP/RNBQKBNR w KQkq - 0 1''"

section \<open>LightRules: the fallback engine\<close>

text \<open>
  An entry of \<open>pushes\<close> in \<open>movesFrom\<close>: the target file and rank, the \<open>ep\<close> mark of an
  en-passant capture and the \<open>castle\<close> mark of a castling candidate.
\<close>

record push =
  pf :: int
  pr :: int
  pep :: bool
  pcastle :: "string option"

text \<open>
  A candidate as \<open>movesFrom\<close> returns it. The source builds candidates with the
  properties \<open>from\<close>, \<open>to\<close> and, when present, \<open>ep\<close> and \<open>castle\<close>; it never gives
  one a \<open>captured\<close> property, so that \<open>mv.captured\<close> in \<open>move\<close> reads \<open>undefined\<close>:
  the field \<open>mcaptured\<close> is that reading.
\<close>

record candidate =
  mfrom :: string
  mto :: string
  mep :: bool
  mcastle :: "string option"
  mcaptured :: "piece option"

definition plain :: "int \<Rightarrow> int \<Rightarrow> push" where
  "plain F R = \<lparr> pf = F, pr = R, pep = False, pcastle = None \<rparr>"

text \<open>\<open>enemy(pp) = pp && isWhitePiece(pp) !== isW\<close>.\<close>

definition enemy :: "bool \<Rightarrow> piece option \<Rightarrow> bool" where
  "enemy isW pp = (case pp of None \<Rightarrow> False | Some t \<Rightarrow> isWhitePiece t \<noteq> isW)"

definition concat_opt :: "'a list option list \<Rightarrow> 'a list option" where
  "concat_opt xs = map_option concat (those xs)"

definition on_board :: "int \<Rightarrow> int \<Rightarrow> bool" where
  "on_board F R = (\<not> (F < 0 \<or> F > 7 \<or> R < 0 \<or> R > 7))"

text \<open>The body shared by the knight loop and the king loop, for one offset.\<close>

definition jump :: "board \<Rightarrow> bool \<Rightarrow> int \<Rightarrow> int \<Rightarrow> int \<times> int \<Rightarrow> push list option" where
  "jump b isW f r d =
     (let F = f + fst d; R = r + snd d
      in if \<not> on_board F R then Some []
         else do {
           t \<leftarrow> at b R F;
           Some (if t = None \<or> enemy isW t then [plain F R] else [])
         })"

definition KNIGHT_JUMPS :: "(int \<times> int) list" where
  "KNIGHT_JUMPS = [(1, 2), (2, 1), (- 1, 2), (- 2, 1), (1, - 2), (2, - 1), (- 1, - 2), (- 2, - 1)]"

text \<open>The king's double loop: \<open>df\<close> outside, \<open>dr\<close> inside, both from -1 to 1, skipping (0, 0).\<close>

definition KING_STEPS :: "(int \<times> int) list" where
  "KING_STEPS = filter (\<lambda>(df, dr). df \<noteq> 0 \<or> dr \<noteq> 0)
                  (concat (map (\<lambda>df. map (\<lambda>dr. (df, dr)) [- 1, 0, 1]) [- 1, 0, 1]))"

text \<open>
  The \<open>while\<close> loop of \<open>ray\<close>, entered at the first square of the ray. It has no bound of
  its own: with the direction (0, 0) on an empty square it would not return.
\<close>

partial_function (option) ray_loop :: "board \<Rightarrow> bool \<Rightarrow> int \<Rightarrow> int \<Rightarrow> int \<Rightarrow> int \<Rightarrow> push list option" where
  "ray_loop b isW F R df dr =
     (if F \<ge> 0 \<and> F < 8 \<and> R \<ge> 0 \<and> R < 8
      then (case at b R F of
              None \<Rightarrow> None
            | Some t \<Rightarrow>
                if t = None
                then Option.bind (ray_loop b isW (F + df) (R + dr) df dr) (\<lambda>ms. Some (plain F R # ms))
                else Some (if enemy isW t then [plain F R] else []))
      else Some [])"

declare ray_loop.simps [code]

definition ray :: "board \<Rightarrow> bool \<Rightarrow> int \<Rightarrow> int \<Rightarrow> int \<times> int \<Rightarrow> push list option" where
  "ray b isW f0 r0 d = ray_loop b isW (f0 + fst d) (r0 + snd d) (fst d) (snd d)"

definition BISHOP_DIRS :: "(int \<times> int) list" where
  "BISHOP_DIRS = [(1, 1), (- 1, 1), (1, - 1), (- 1, - 1)]"

definition ROOK_DIRS :: "(int \<times> int) list" where
  "ROOK_DIRS = [(1, 0), (- 1, 0), (0, 1), (0, - 1)]"

definition QUEEN_DIRS :: "(int \<times> int) list" where
  "QUEEN_DIRS = [(1, 0), (- 1, 0), (0, 1), (0, - 1), (1, 1), (- 1, 1), (1, - 1), (- 1, - 1)]"

definition pawn_capture :: "board \<Rightarrow> bool \<Rightarrow> int \<Rightarrow> int \<Rightarrow> int \<Rightarrow> push list option" where
  "pawn_capture b isW f r df =
     (let dir = (if isW then 1 else - 1); F = f + df; R = r + dir
      in if F \<ge> 0 \<and> F < 8 \<and> R \<ge> 0 \<and> R < 8
         then do { t \<leftarrow> at b R F; Some (if t \<noteq> None \<and> enemy isW t then [plain F R] else []) }
         else Some [])"

definition pawn_pushes :: "state \<Rightarrow> bool \<Rightarrow> int \<Rightarrow> int \<Rightarrow> push list option" where
  "pawn_pushes st isW f r =
     (let dir = (if isW then 1 else - 1);
          startRank = (if isW then 1 else 6)
      in do {
        o1 \<leftarrow> at (board st) (r + dir) f;
        two \<leftarrow> (if r = startRank
                then do {
                  o1' \<leftarrow> at (board st) (r + dir) f;
                  if o1' = None
                  then do { o2 \<leftarrow> at (board st) (r + 2 * dir) f;
                            Some (if o2 = None then [plain f (r + 2 * dir)] else []) }
                  else Some []
                }
                else Some []);
        caps \<leftarrow> concat_opt (map (pawn_capture (board st) isW f r) [- 1, 1]);
        Some ((if o1 = None then [plain f (r + dir)] else []) @ two @ caps
              @ (if ep st \<noteq> [] \<and> ep st \<noteq> ''-''
                 then (let (ef, er) = sqToFR (ep st)
                       in if er = r + dir \<and> \<bar>ef - f\<bar> = 1
                          then [\<lparr> pf = ef, pr = er, pep = True, pcastle = None \<rparr>] else [])
                 else []))
      })"

definition castle_pushes :: "state \<Rightarrow> bool \<Rightarrow> int \<Rightarrow> push list option" where
  "castle_pushes st isW r = do {
     k \<leftarrow> (if (isW \<and> CHR ''K'' \<in> set (castling st)) \<or> (\<not> isW \<and> CHR ''k'' \<in> set (castling st))
           then do {
             o5 \<leftarrow> at (board st) r 5;
             if o5 = None
             then do { o6 \<leftarrow> at (board st) r 6;
                       Some (if o6 = None then [\<lparr> pf = 6, pr = r, pep = False, pcastle = Some ''K'' \<rparr>] else []) }
             else Some []
           }
           else Some []);
     q \<leftarrow> (if (isW \<and> CHR ''Q'' \<in> set (castling st)) \<or> (\<not> isW \<and> CHR ''q'' \<in> set (castling st))
           then do {
             o1 \<leftarrow> at (board st) r 1;
             if o1 = None
             then do { o2 \<leftarrow> at (board st) r 2;
                       if o2 = None
                       then do { o3 \<leftarrow> at (board st) r 3;
                                 Some (if o3 = None then [\<lparr> pf = 2, pr = r, pep = False, pcastle = Some ''Q'' \<rparr>] else []) }
                       else Some [] }
             else Some []
           }
           else Some []);
     Some (k @ q)
   }"

text \<open>The \<open>switch (p.toLowerCase())\<close> of \<open>movesFrom\<close>; a letter without a case adds nothing.\<close>

definition piece_pushes :: "state \<Rightarrow> piece \<Rightarrow> bool \<Rightarrow> int \<Rightarrow> int \<Rightarrow> push list option" where
  "piece_pushes st p isW f r =
     (let k = toLowerCase p
      in if k = CHR ''p'' then pawn_pushes st isW f r
         else if k = CHR ''n'' then concat_opt (map (jump (board st) isW f r) KNIGHT_JUMPS)
         else if k = CHR ''b'' then concat_opt (map (ray (board st) isW f r) BISHOP_DIRS)
         else if k = CHR ''r'' then concat_opt (map (ray (board st) isW f r) ROOK_DIRS)
         else if k = CHR ''q'' then concat_opt (map (ray (board st) isW f r) QUEEN_DIRS)
         else if k = CHR ''k'' then do {
           adj \<leftarrow> concat_opt (map (jump (board st) isW f r) KING_STEPS);
           cs \<leftarrow> castle_pushes st isW r;
           Some (adj @ cs)
         }
         else Some [])"

definition movesFrom :: "state \<Rightarrow> string \<Rightarrow> candidate list option" where
  "movesFrom st square =
     (let (f, r) = sqToFR square
      in do {
        po \<leftarrow> at (board st) r f;
        case po of
          None \<Rightarrow> Some []
        | Some p \<Rightarrow>
            let isW = isWhitePiece p; me = (if isW then ''w'' else ''b'')
            in if me \<noteq> turn st then Some []
               else do {
                 pushes \<leftarrow> piece_pushes st p isW f r;
                 Some (map (\<lambda>m. \<lparr> mfrom = sq f r, mto = sq (pf m) (pr m), mep = pep m,
                                   mcastle = pcastle m, mcaptured = None \<rparr>) pushes)
               }
      })"

definition boardToArr :: "board \<Rightarrow> (string \<times> piece) list option" where
  "boardToArr b =
     concat_opt (map (\<lambda>r. map_option
                        (\<lambda>rw. concat (map (\<lambda>f. case nth_opt rw (int f) of
                                                  Some (Some p) \<Rightarrow> [(sq (int f) (int r), p)]
                                                | _ \<Rightarrow> []) [0..<8]))
                        (nth_opt b (int r))) [0..<8])"

text \<open>The \<open>move\<close> record inside a successful result, and the result itself.\<close>

record move_info =
  i_from :: string
  i_to :: string
  i_piece :: piece
  i_captured :: "piece option"
  i_before :: "(string \<times> piece) list"
  i_after :: "(string \<times> piece) list"

datatype move_result =
  Fail (reason: string)
| Ok (res_state: state) (res_fen: string) (res_move: move_info)

definition is_ok :: "move_result \<Rightarrow> bool" where
  "is_ok res = (case res of Fail _ \<Rightarrow> False | Ok _ _ _ \<Rightarrow> True)"

text \<open>\<open>s.state.board[r][f] = v\<close> on the copy \<open>s\<close> of the state.\<close>

definition put_cell :: "state \<Rightarrow> int \<Rightarrow> int \<Rightarrow> piece option \<Rightarrow> state option" where
  "put_cell s r f v = map_option (\<lambda>b. s\<lparr> board := b \<rparr>) (put (board s) r f v)"

text \<open>The castling branch of \<open>move\<close>: the rook's cells, then the rights of the mover.\<close>

definition castle_rook :: "state \<Rightarrow> int \<Rightarrow> int \<Rightarrow> state option" where
  "castle_rook s ar bf =
     (if bf = 6 then do { rk \<leftarrow> at (board s) ar 7; s' \<leftarrow> put_cell s ar 5 rk; put_cell s' ar 7 None }
      else if bf = 2 then do { rk \<leftarrow> at (board s) ar 0; s' \<leftarrow> put_cell s ar 3 rk; put_cell s' ar 0 None }
      else Some s)"

definition drop_rights :: "bool \<Rightarrow> string \<Rightarrow> string" where
  "drop_rights isW c = (if isW then remove1 CHR ''Q'' (remove1 CHR ''K'' c)
                        else remove1 CHR ''q'' (remove1 CHR ''k'' c))"

text \<open>
  The end of \<open>move\<close>, "Update EP square" and "Turn & counters": the assignments to
  \<open>s.state.ep\<close>, \<open>turn\<close>, \<open>halfmove\<close> and \<open>fullmove\<close>, in the order of the source.
\<close>

definition counters :: "state \<Rightarrow> piece \<Rightarrow> int \<Rightarrow> int \<Rightarrow> int \<Rightarrow> candidate \<Rightarrow> state" where
  "counters s p af ar br mv =
     (let isW = isWhitePiece p;
          s6 = s\<lparr> ep := ''-'' \<rparr>;
          s7 = (if toLowerCase p = CHR ''p'' \<and> \<bar>br - ar\<bar> = 2
                then s6\<lparr> ep := sq af (ar + (if isW then 1 else - 1)) \<rparr> else s6);
          s8 = s7\<lparr> turn := (if turn s7 = ''w'' then ''b'' else ''w'') \<rparr>;
          s9 = s8\<lparr> halfmove := (if toLowerCase p = CHR ''p'' \<or> mcaptured mv \<noteq> None then Num 0
                                  else Num (num_or (halfmove s8) 0 + 1)) \<rparr>
      in if turn s9 = ''w'' then s9\<lparr> fullmove := Num (num_or (fullmove s9) 1 + 1) \<rparr> else s9)"

text \<open>
  \<open>LightRules.move\<close> after its three checks: the copy \<open>s\<close> of the state is updated, one
  assignment after the other, for the piece \<open>p\<close> found on \<open>from\<close> and the candidate \<open>mv\<close>
  found for \<open>to\<close>.
\<close>

definition apply_move :: "state \<Rightarrow> state \<Rightarrow> string \<Rightarrow> string \<Rightarrow> char option \<Rightarrow> piece \<Rightarrow> candidate \<Rightarrow> move_result option" where
  "apply_move this s from to promotion p mv =
     (let (af, ar) = sqToFR from; (bf, br) = sqToFR to; isW = isWhitePiece p
      in do {
        s1 \<leftarrow> (if mep mv then put_cell s (br - (if isW then 1 else - 1)) bf None else Some s);
        s2 \<leftarrow> put_cell s1 br bf (Some p);
        s3 \<leftarrow> put_cell s2 ar af None;
        s4 \<leftarrow> (if toLowerCase p = CHR ''p'' \<and> (br = 7 \<or> br = 0)
               then (let promo = (case promotion of None \<Rightarrow> CHR ''q'' | Some c \<Rightarrow> c)
                     in put_cell s3 br bf (Some (if isW then toUpperCase promo else toLowerCase promo)))
               else Some s3);
        s5 \<leftarrow> (if toLowerCase p = CHR ''k'' \<and> \<bar>bf - af\<bar> = 2
               then do { s' \<leftarrow> castle_rook s4 ar bf;
                         Some (s'\<lparr> castling := drop_rights isW (castling s') \<rparr>) }
               else Some s4);
        let s' = counters s5 p af ar br mv;
        before \<leftarrow> boardToArr (board this);
        after \<leftarrow> boardToArr (board s');
        fen \<leftarrow> boardToFEN s';
        Some (Ok s' fen \<lparr> i_from = from, i_to = to, i_piece = p,
                            i_captured = mcaptured mv, i_before = before, i_after = after \<rparr>)
      })"

text \<open>
  \<open>LightRules.move\<close>. The deep copy \<open>s\<close> made by \<open>clone\<close> is a value here (the objects
  and the store are in a section of their own below); the promotion argument is a
  one-character string or absent.
\<close>

definition move :: "state \<Rightarrow> string \<Rightarrow> string \<Rightarrow> char option \<Rightarrow> move_result option" where
  "move this from to promotion =
     (let s = this; (af, ar) = sqToFR from
      in do {
        po \<leftarrow> at (board s) ar af;
        case po of
          None \<Rightarrow> Some (Fail ''empty'')
        | Some p \<Rightarrow>
            let isW = isWhitePiece p
            in if (isW \<and> turn s \<noteq> ''w'') \<or> (\<not> isW \<and> turn s \<noteq> ''b'') then Some (Fail ''turn'')
               else do {
                 moves \<leftarrow> movesFrom this from;
                 case find (\<lambda>m. mto m = to) moves of
                   None \<Rightarrow> Some (Fail ''illegal'')
                 | Some mv \<Rightarrow> apply_move this s from to promotion p mv
               }
      })"

section \<open>The snapshot matcher of the animation\<close>

definition SCAN :: "(nat \<times> nat) list" where
  "SCAN = concat (map (\<lambda>r. map (\<lambda>f. (r, f)) [0..<8]) [0..<8])"

text \<open>The double loop of \<open>findPiece\<close> over the squares still to visit.\<close>

fun find_from :: "board \<Rightarrow> piece \<Rightarrow> board \<Rightarrow> (nat \<times> nat) list \<Rightarrow> (nat \<times> nat) option option" where
  "find_from b p sb [] = Some None"
| "find_from b p sb ((r, f) # rest) = do {
     x \<leftarrow> at b (int r) (int f);
     if x = Some p
     then do { y \<leftarrow> at sb (int r) (int f);
               if y \<noteq> Some p then Some (Some (r, f)) else find_from b p sb rest }
     else find_from b p sb rest
   }"

definition findPiece :: "board \<Rightarrow> piece \<Rightarrow> nat \<Rightarrow> nat \<Rightarrow> board \<Rightarrow> (nat \<times> nat) option option" where
  "findPiece b p r0 f0 startBoard = find_from b p startBoard SCAN"

text \<open>
  The loop of \<open>_animateTo\<close> that fills \<open>movingMap\<close>, a \<open>Map\<close> from the label of the origin
  to the label of the destination.
\<close>

fun moving_from :: "board \<Rightarrow> board \<Rightarrow> (string \<rightharpoonup> string) \<Rightarrow> (nat \<times> nat) list \<Rightarrow> (string \<rightharpoonup> string) option" where
  "moving_from sb eb m [] = Some m"
| "moving_from sb eb m ((r, f) # rest) = do {
     a \<leftarrow> at sb (int r) (int f);
     b \<leftarrow> at eb (int r) (int f);
     case a of
       None \<Rightarrow> moving_from sb eb m rest
     | Some pc \<Rightarrow>
         if b = None \<or> a \<noteq> b
         then do {
           to \<leftarrow> findPiece eb pc r f sb;
           case to of
             None \<Rightarrow> moving_from sb eb m rest
           | Some (tr, tf) \<Rightarrow> moving_from sb eb (m(sq (int f) (int r) \<mapsto> sq (int tf) (int tr))) rest
         }
         else moving_from sb eb m rest
   }"

definition movingMap :: "state \<Rightarrow> state \<Rightarrow> (string \<rightharpoonup> string) option" where
  "movingMap targetState startState = moving_from (board startState) (board targetState) Map.empty SCAN"

section \<open>Positions reachable from the start\<close>

text \<open>
  A new \<open>LightRules\<close> holds \<open>parseFEN(START_FEN)\<close>. A position is reachable when it is
  that one, the \<open>state\<close> of a successful \<open>move\<close> from a reachable position (the promotion
  being absent or one of the letters q, r, b, n), or what \<open>setFEN(getFEN())\<close> installs
  from a reachable position, as \<open>Chessboard.move\<close> does with the \<open>fen\<close> of the result.
\<close>

definition initial_state :: state where
  "initial_state =
     \<lparr> board = [map Some ''RNBQKBNR'', map Some ''PPPPPPPP'',
                 replicate 8 None, replicate 8 None, replicate 8 None, replicate 8 None,
                 map Some ''pppppppp'', map Some ''rnbqkbnr''],
       turn = ''w'', castling = ''KQkq'', ep = ''-'', halfmove = Num 0, fullmove = Num 1 \<rparr>"

definition PROMOTIONS :: "char option list" where
  "PROMOTIONS = [None, Some CHR ''q'', Some CHR ''r'', Some CHR ''b'', Some CHR ''n'']"

inductive reachable :: "state \<Rightarrow> bool" where
  start: "reachable initial_state"
| moved: "reachable p \<Longrightarrow> promotion \<in> set PROMOTIONS \<Longrightarrow>
          move p from to promotion = Some (Ok s fen info) \<Longrightarrow> reachable s"
| installed: "reachable p \<Longrightarrow> boardToFEN p = Some fen \<Longrightarrow> parseFEN fen = Some s \<Longrightarrow> reachable s"

text \<open>A game: the moves are applied in turn, each to the state of the result before.\<close>

fun play :: "state \<Rightarrow> (string \<times> string) list \<Rightarrow> state option" where
  "play p [] = Some p"
| "play p ((from, to) # ms) =
     (case move p from to None of
        Some (Ok s fen info) \<Rightarrow> play s ms
      | _ \<Rightarrow> None)"

section \<open>Well-formed positions\<close>

text \<open>
  The positions the engine builds keep a shape the theorems rely on: eight ranks of eight
  cells, every piece one of the twelve letters of \<open>PIECES\<close>, no pawn on the rank it
  promotes on, a side to move, a castling text without repeated letters, an en-passant
  field that is "-" or the label of a square, and counters that are numbers.
\<close>

definition PIECES :: "char list" where
  "PIECES = ''kqrbnpKQRBNP''"

definition shape :: "board \<Rightarrow> bool" where
  "shape b = (length b = 8 \<and> (\<forall>rw \<in> set b. length rw = 8))"

definition wf_cell :: "int \<Rightarrow> piece option \<Rightarrow> bool" where
  "wf_cell r c = (case c of None \<Rightarrow> True
                  | Some p \<Rightarrow> p \<in> set PIECES \<and> (p = CHR ''P'' \<longrightarrow> r \<noteq> 7) \<and> (p = CHR ''p'' \<longrightarrow> r \<noteq> 0))"

definition cells_ok :: "(int \<Rightarrow> int \<Rightarrow> piece option \<Rightarrow> bool) \<Rightarrow> board \<Rightarrow> bool" where
  "cells_ok P b = (shape b \<and> (\<forall>r f c. 0 \<le> r \<and> r < 8 \<and> 0 \<le> f \<and> f < 8 \<and> at b r f = Some c \<longrightarrow> P r f c))"

definition wf_board :: "board \<Rightarrow> bool" where
  "wf_board b = cells_ok (\<lambda>r f c. wf_cell r c) b"

definition wf_castling :: "string \<Rightarrow> bool" where
  "wf_castling c = (c = ''-'' \<or> (distinct c \<and> set c \<subseteq> set ''KQkq''))"

definition wf_ep :: "string \<Rightarrow> bool" where
  "wf_ep e = (e = ''-'' \<or> (\<exists>f r. 0 \<le> f \<and> f < 8 \<and> 0 \<le> r \<and> r < 8 \<and> e = sq f r))"

definition wf_state :: "state \<Rightarrow> bool" where
  "wf_state s = (wf_board (board s) \<and> (turn s = ''w'' \<or> turn s = ''b'') \<and> wf_castling (castling s)
                 \<and> wf_ep (ep s) \<and> (\<exists>h. halfmove s = Num h \<and> 0 \<le> h) \<and> (\<exists>n. fullmove s = Num n \<and> 1 \<le> n))"

text \<open>
  Names for what \<open>movesFrom\<close> and \<open>move\<close> compute on the way: the direction of a pawn,
  the candidate made from an entry of \<open>pushes\<close>, the piece a promotion puts down, the
  two tests of \<open>move\<close> for castling and promotion, and the state that \<open>move\<close> returns
  for a final board \<open>b5\<close>.
\<close>

definition dir_of :: "bool \<Rightarrow> int" where
  "dir_of isW = (if isW then 1 else - 1)"

definition simple :: "push \<Rightarrow> bool" where
  "simple m = (on_board (pf m) (pr m) \<and> \<not> pep m)"

definition push_ok :: "piece \<Rightarrow> int \<Rightarrow> int \<Rightarrow> push \<Rightarrow> bool" where
  "push_ok p f r m =
     (on_board (pf m) (pr m)
      \<and> (pep m \<longrightarrow> toLowerCase p = CHR ''p'' \<and> pr m = r + dir_of (isWhitePiece p))
      \<and> (toLowerCase p = CHR ''p'' \<longrightarrow> pr m = r + dir_of (isWhitePiece p)
             \<or> (pr m = r + 2 * dir_of (isWhitePiece p) \<and> pf m = f))
      \<and> (toLowerCase p = CHR ''k'' \<longrightarrow> \<bar>pf m - f\<bar> \<le> 1 \<or> (pr m = r \<and> (pf m = 6 \<or> pf m = 2))))"

definition cand_of :: "int \<Rightarrow> int \<Rightarrow> push \<Rightarrow> candidate" where
  "cand_of f r m = \<lparr> mfrom = sq f r, mto = sq (pf m) (pr m), mep = pep m, mcastle = pcastle m, mcaptured = None \<rparr>"

definition promoted :: "bool \<Rightarrow> char option \<Rightarrow> piece" where
  "promoted isW promotion =
     (let promo = (case promotion of None \<Rightarrow> CHR ''q'' | Some c \<Rightarrow> c)
      in if isW then toUpperCase promo else toLowerCase promo)"

definition castles :: "piece \<Rightarrow> int \<Rightarrow> int \<Rightarrow> bool" where
  "castles p af bf = (toLowerCase p = CHR ''k'' \<and> \<bar>bf - af\<bar> = 2)"

definition promotes :: "piece \<Rightarrow> int \<Rightarrow> bool" where
  "promotes p br = (toLowerCase p = CHR ''p'' \<and> (br = 7 \<or> br = 0))"

definition rook_cells :: "board \<Rightarrow> int \<Rightarrow> int \<Rightarrow> board option" where
  "rook_cells b ar bf =
     (if bf = 6 then do { rk \<leftarrow> at b ar 7; b' \<leftarrow> put b ar 5 rk; put b' ar 7 None }
      else if bf = 2 then do { rk \<leftarrow> at b ar 0; b' \<leftarrow> put b ar 3 rk; put b' ar 0 None }
      else Some b)"

definition next_state :: "state \<Rightarrow> board \<Rightarrow> piece \<Rightarrow> int \<Rightarrow> int \<Rightarrow> int \<Rightarrow> int \<Rightarrow> candidate \<Rightarrow> state" where
  "next_state s b5 p af ar bf br mv =
     \<lparr> board = b5,
       turn = (if turn s = ''w'' then ''b'' else ''w''),
       castling = (if castles p af bf then drop_rights (isWhitePiece p) (castling s) else castling s),
       ep = (if toLowerCase p = CHR ''p'' \<and> \<bar>br - ar\<bar> = 2
             then sq af (ar + dir_of (isWhitePiece p)) else ''-''),
       halfmove = (if toLowerCase p = CHR ''p'' \<or> mcaptured mv \<noteq> None then Num 0
                   else Num (num_or (halfmove s) 0 + 1)),
       fullmove = (if (if turn s = ''w'' then ''b'' else ''w'') = ''w''
                   then Num (num_or (fullmove s) 1 + 1) else fullmove s) \<rparr>"

text \<open>
  The cells of the board after \<open>move\<close>, read through the boards in between: \<open>b3\<close> after
  the piece has moved (and the pawn taken en passant is gone), \<open>b4\<close> after the promotion,
  \<open>b5\<close> after the rook of a castling move.
\<close>

definition cells_after :: "board \<Rightarrow> board \<Rightarrow> piece \<Rightarrow> char option \<Rightarrow> bool \<Rightarrow> int \<Rightarrow> int \<Rightarrow> int \<Rightarrow> int \<Rightarrow> bool" where
  "cells_after b b5 p promotion isep af ar bf br =
     (\<exists>b3 b4.
        (\<forall>r' f'. at b3 r' f' =
           (if r' = ar \<and> f' = af then Some None
            else if r' = br \<and> f' = bf then Some (Some p)
            else if isep \<and> r' = br - dir_of (isWhitePiece p) \<and> f' = bf then Some None
            else at b r' f'))
      \<and> (\<forall>r' f'. at b4 r' f' =
           (if promotes p br \<and> r' = br \<and> f' = bf then Some (Some (promoted (isWhitePiece p) promotion))
            else at b3 r' f'))
      \<and> (\<forall>r' f'. at b5 r' f' =
           (if castles p af bf \<and> bf = 6
            then (if r' = ar \<and> f' = 7 then Some None
                  else if r' = ar \<and> f' = 5 then at b4 ar 7 else at b4 r' f')
            else if castles p af bf \<and> bf = 2
            then (if r' = ar \<and> f' = 0 then Some None
                  else if r' = ar \<and> f' = 3 then at b4 ar 0 else at b4 r' f')
            else at b4 r' f')))"

text \<open>The ranks of a board as \<open>boardToFEN\<close> prints them, and what \<open>parseFEN\<close> reads back.\<close>

definition pieces_ok :: "piece option list \<Rightarrow> bool" where
  "pieces_ok ps = (\<forall>p. Some p \<in> set ps \<longrightarrow> p \<in> set PIECES)"

definition enc_rows :: "board \<Rightarrow> string list" where
  "enc_rows b = map (\<lambda>r. enc_row (b ! r) [] 0) (rev [0..<8])"

definition canonical :: "state \<Rightarrow> state" where
  "canonical st = st\<lparr> castling := (if castling st = [] then ''-'' else castling st) \<rparr>"

text \<open>
  The words of the specification: the colour of a piece as \<open>movesFrom\<close> computes it, the
  en-passant target when there is one (the test of \<open>movesFrom\<close>), a pawn advancing two
  squares on its file, and the square between origin and destination.
\<close>

definition color_of :: "piece \<Rightarrow> string" where
  "color_of p = (if isWhitePiece p then ''w'' else ''b'')"

definition ep_target :: "state \<Rightarrow> string option" where
  "ep_target s = (if ep s \<noteq> [] \<and> ep s \<noteq> ''-'' then Some (ep s) else None)"

definition two_square_pawn_advance :: "state \<Rightarrow> string \<Rightarrow> string \<Rightarrow> bool" where
  "two_square_pawn_advance p from to =
     (let (af, ar) = sqToFR from; (bf, br) = sqToFR to
      in case at (board p) ar af of
           Some (Some pc) \<Rightarrow> toLowerCase pc = CHR ''p'' \<and> bf = af \<and> \<bar>br - ar\<bar> = 2
         | _ \<Rightarrow> False)"

definition passed_over :: "string \<Rightarrow> string \<Rightarrow> string" where
  "passed_over from to = sq (fst (sqToFR from)) ((snd (sqToFR from) + snd (sqToFR to)) div 2)"

text \<open>
  The position after 1. Nf3 Nf6 2. e3 e6 3. Be2 Be7 4. O-O O-O: both sides have castled
  and the castling text is empty.
\<close>

definition castled_state :: state where
  "castled_state =
     \<lparr> board = [map Some ''RNBQ'' @ [None] @ map Some ''RK'' @ [None],
                 map Some ''PPPPBPPP'',
                 replicate 4 None @ map Some ''PN'' @ replicate 2 None,
                 replicate 8 None, replicate 8 None,
                 replicate 4 None @ map Some ''pn'' @ replicate 2 None,
                 map Some ''ppppbppp'',
                 map Some ''rnbq'' @ [None] @ map Some ''rk'' @ [None]],
       turn = ''w'', castling = [], ep = ''-'', halfmove = Num 4, fullmove = Num 5 \<rparr>"

text \<open>
  A castling right is a letter of the castling text (\<open>castling.includes\<close> in
  \<open>movesFrom\<close>); the rook of a castling move comes from file h (7) when the king goes to
  file g (6), from file a (0) otherwise. The position after 1. Nf3 Nf6 2. e3 e6
  3. Be2 Be7, where white may castle.
\<close>

definition has_right :: "char \<Rightarrow> state \<Rightarrow> bool" where
  "has_right c s = (c \<in> set (castling s))"





text \<open>
  The words of the matcher: a square takes the piece when \<open>after\<close> holds the symbol there
  and \<open>before\<close> did not; one square is earlier than another in the scan by ranks, then
  files.
\<close>

definition takes :: "board \<Rightarrow> board \<Rightarrow> piece \<Rightarrow> nat \<times> nat \<Rightarrow> bool" where
  "takes after before pc x =
     (at after (int (fst x)) (int (snd x)) = Some (Some pc)
      \<and> at before (int (fst x)) (int (snd x)) \<noteq> Some (Some pc))"

definition earlier :: "nat \<times> nat \<Rightarrow> nat \<times> nat \<Rightarrow> bool" where
  "earlier x y = (fst x < fst y \<or> (fst x = fst y \<and> snd x < snd y))"

text \<open>The entry that \<open>_animateTo\<close> makes for one origin square.\<close>

definition entry :: "board \<Rightarrow> board \<Rightarrow> nat \<times> nat \<Rightarrow> string option \<Rightarrow> string option" where
  "entry sb eb x old =
     (case at sb (int (fst x)) (int (snd x)) of
        Some (Some pc) \<Rightarrow>
          if at eb (int (fst x)) (int (snd x)) \<noteq> Some (Some pc)
          then (case findPiece eb pc (fst x) (snd x) sb of
                  Some (Some t) \<Rightarrow> Some (sq (int (snd t)) (int (fst t)))
                | _ \<Rightarrow> old)
          else old
      | _ \<Rightarrow> old)"

text \<open>The position after 1. e4.\<close>

definition e4_state :: state where
  "e4_state =
     \<lparr> board = [map Some ''RNBQKBNR'', map Some ''PPPP'' @ [None] @ map Some ''PPP'',
                 replicate 8 None, replicate 4 None @ [Some CHR ''P''] @ replicate 3 None,
                 replicate 8 None, replicate 8 None,
                 map Some ''pppppppp'', map Some ''rnbqkbnr''],
       turn = ''b'', castling = ''KQkq'', ep = ''e3'', halfmove = Num 0, fullmove = Num 1 \<rparr>"

section \<open>The objects of the engine in a store\<close>

text \<open>
  \<open>move\<close> works on a copy made by \<open>clone\<close>, which is
  \<open>JSON.parse(JSON.stringify(this.state))\<close>: new objects with the same contents. What
  the call leaves in the engine it was called on is a question about objects, so here the
  engine, its state object, the board array and the rank arrays are objects in a store, and
  \<open>move\<close> is the same sequence of reads and assignments as above, made on these objects.
  A counter that is \<open>NaN\<close> is copied as \<open>null\<close>; the code reads the counters through
  \<open>||\<close> only, where both are falsy, and the value \<open>NaN\<close> stands for both.
\<close>

text \<open>
  The objects of the engine in a store. A \<open>LightRules\<close> object refers to its state
  object; the state object holds the scalar fields and refers to the board array; the
  board array refers to its eight rank arrays, which hold the cells. \<open>nxt\<close> is the first
  address not yet handed out. Strings and numbers are values.
\<close>

type_synonym addr = nat

record state_obj =
  o_board :: addr
  o_turn :: string
  o_castling :: string
  o_ep :: string
  o_halfmove :: jsnum
  o_fullmove :: jsnum

record store =
  rules :: "addr \<rightharpoonup> addr"
  states :: "addr \<rightharpoonup> state_obj"
  arrays :: "addr \<rightharpoonup> addr list"
  ranks :: "addr \<rightharpoonup> row"
  nxt :: addr

text \<open>The state of an engine read out of the store, as \<open>JSON.stringify\<close> walks it.\<close>

definition view :: "state_obj \<Rightarrow> board \<Rightarrow> state" where
  "view so b = \<lparr> board = b, turn = o_turn so, castling = o_castling so, ep = o_ep so,
                 halfmove = o_halfmove so, fullmove = o_fullmove so \<rparr>"

definition load_state :: "store \<Rightarrow> addr \<Rightarrow> state option" where
  "load_state h sa = do {
     so \<leftarrow> states h sa;
     ba \<leftarrow> arrays h (o_board so);
     rws \<leftarrow> those (map (ranks h) ba);
     Some (view so rws)
   }"

definition load :: "store \<Rightarrow> addr \<Rightarrow> state option" where
  "load h e = Option.bind (rules h e) (load_state h)"

text \<open>\<open>getFEN\<close> of the engine at \<open>e\<close>.\<close>

definition getFEN :: "store \<Rightarrow> addr \<Rightarrow> string option" where
  "getFEN h e = Option.bind (load h e) boardToFEN"

text \<open>New objects for a state value: what \<open>parseFEN\<close> and \<open>JSON.parse\<close> build.\<close>

fun alloc_ranks :: "store \<Rightarrow> row list \<Rightarrow> store \<times> addr list" where
  "alloc_ranks h [] = (h, [])"
| "alloc_ranks h (rw # rws) =
     (let a = nxt h;
          (h', as) = alloc_ranks (h\<lparr> ranks := (ranks h)(a \<mapsto> rw), nxt := a + 1 \<rparr>) rws
      in (h', a # as))"

definition alloc_state :: "store \<Rightarrow> state \<Rightarrow> store \<times> addr" where
  "alloc_state h st =
     (let (h1, ras) = alloc_ranks h (board st);
          ba = nxt h1;
          h2 = h1\<lparr> arrays := (arrays h1)(ba \<mapsto> ras), nxt := ba + 1 \<rparr>;
          sa = nxt h2;
          so = \<lparr> o_board = ba, o_turn = turn st, o_castling = castling st, o_ep = ep st,
                 o_halfmove = halfmove st, o_fullmove = fullmove st \<rparr>
      in (h2\<lparr> states := (states h2)(sa \<mapsto> so), nxt := sa + 1 \<rparr>, sa))"

text \<open>
  \<open>clone\<close>: \<open>new LightRules()\<close> makes an engine on the start position, then its \<open>state\<close>
  is replaced by a deep copy of the state of \<open>this\<close>.
\<close>

definition clone :: "store \<Rightarrow> addr \<Rightarrow> (store \<times> addr) option" where
  "clone h this = do {
     st0 \<leftarrow> parseFEN START_FEN;
     let (h1, sa0) = alloc_state h st0;
     let c = nxt h1;
     let h2 = h1\<lparr> rules := (rules h1)(c \<mapsto> sa0), nxt := c + 1 \<rparr>;
     st \<leftarrow> load h2 this;
     let (h3, sa) = alloc_state h2 st;
     Some (h3\<lparr> rules := (rules h3)(c \<mapsto> sa) \<rparr>, c)
   }"

text \<open>\<open>e.state.board[r][f]\<close> read and written, and a field of \<open>e.state\<close> written.\<close>

definition read_cell :: "store \<Rightarrow> addr \<Rightarrow> int \<Rightarrow> int \<Rightarrow> piece option option" where
  "read_cell h e r f = do {
     sa \<leftarrow> rules h e;
     so \<leftarrow> states h sa;
     ba \<leftarrow> arrays h (o_board so);
     ra \<leftarrow> nth_opt ba r;
     rw \<leftarrow> ranks h ra;
     Some (case nth_opt rw f of None \<Rightarrow> None | Some c \<Rightarrow> c)
   }"

definition write_cell :: "store \<Rightarrow> addr \<Rightarrow> int \<Rightarrow> int \<Rightarrow> piece option \<Rightarrow> store option" where
  "write_cell h e r f v = do {
     sa \<leftarrow> rules h e;
     so \<leftarrow> states h sa;
     ba \<leftarrow> arrays h (o_board so);
     ra \<leftarrow> nth_opt ba r;
     rw \<leftarrow> ranks h ra;
     Some (h\<lparr> ranks := (ranks h)(ra \<mapsto> js_set rw f v) \<rparr>)
   }"

definition read_state :: "store \<Rightarrow> addr \<Rightarrow> state_obj option" where
  "read_state h e = Option.bind (rules h e) (states h)"

definition write_state :: "store \<Rightarrow> addr \<Rightarrow> (state_obj \<Rightarrow> state_obj) \<Rightarrow> store option" where
  "write_state h e g = do {
     sa \<leftarrow> rules h e;
     so \<leftarrow> states h sa;
     Some (h\<lparr> states := (states h)(sa \<mapsto> g so) \<rparr>)
   }"

text \<open>The castling branch of \<open>move\<close> on the copy \<open>s\<close>.\<close>

definition castle_rook_h :: "store \<Rightarrow> addr \<Rightarrow> int \<Rightarrow> int \<Rightarrow> store option" where
  "castle_rook_h h s ar bf =
     (if bf = 6 then do { rk \<leftarrow> read_cell h s ar 7; h' \<leftarrow> write_cell h s ar 5 rk; write_cell h' s ar 7 None }
      else if bf = 2 then do { rk \<leftarrow> read_cell h s ar 0; h' \<leftarrow> write_cell h s ar 3 rk; write_cell h' s ar 0 None }
      else Some h)"

text \<open>The assignments to \<open>s.state.ep\<close>, \<open>turn\<close>, \<open>halfmove\<close> and \<open>fullmove\<close> on the copy \<open>s\<close>.\<close>

definition counters_h :: "store \<Rightarrow> addr \<Rightarrow> piece \<Rightarrow> int \<Rightarrow> int \<Rightarrow> int \<Rightarrow> candidate \<Rightarrow> store option" where
  "counters_h h s p af ar br mv =
     (let isW = isWhitePiece p
      in do {
        h6 \<leftarrow> write_state h s (\<lambda>so. so\<lparr> o_ep := ''-'' \<rparr>);
        h7 \<leftarrow> (if toLowerCase p = CHR ''p'' \<and> \<bar>br - ar\<bar> = 2
               then write_state h6 s (\<lambda>so. so\<lparr> o_ep := sq af (ar + (if isW then 1 else - 1)) \<rparr>)
               else Some h6);
        h8 \<leftarrow> write_state h7 s (\<lambda>so. so\<lparr> o_turn := (if o_turn so = ''w'' then ''b'' else ''w'') \<rparr>);
        h9 \<leftarrow> write_state h8 s (\<lambda>so. so\<lparr> o_halfmove :=
                  (if toLowerCase p = CHR ''p'' \<or> mcaptured mv \<noteq> None then Num 0
                   else Num (num_or (o_halfmove so) 0 + 1)) \<rparr>);
        so \<leftarrow> read_state h9 s;
        if o_turn so = ''w''
        then write_state h9 s (\<lambda>so. so\<lparr> o_fullmove := Num (num_or (o_fullmove so) 1 + 1) \<rparr>)
        else Some h9
      })"

text \<open>
  \<open>LightRules.move\<close> on the store, after its three checks: the result and the store
  after the call. The state in the result is the state object of the copy \<open>s\<close>, read out
  when the call returns.
\<close>

definition apply_move_h :: "store \<Rightarrow> addr \<Rightarrow> addr \<Rightarrow> string \<Rightarrow> string \<Rightarrow> char option \<Rightarrow> piece \<Rightarrow> candidate
                            \<Rightarrow> (move_result \<times> store) option" where
  "apply_move_h h this s from to promotion p mv =
     (let (af, ar) = sqToFR from; (bf, br) = sqToFR to; isW = isWhitePiece p
      in do {
        h1 \<leftarrow> (if mep mv then write_cell h s (br - (if isW then 1 else - 1)) bf None else Some h);
        h2 \<leftarrow> write_cell h1 s br bf (Some p);
        h3 \<leftarrow> write_cell h2 s ar af None;
        h4 \<leftarrow> (if toLowerCase p = CHR ''p'' \<and> (br = 7 \<or> br = 0)
               then (let promo = (case promotion of None \<Rightarrow> CHR ''q'' | Some c \<Rightarrow> c)
                     in write_cell h3 s br bf (Some (if isW then toUpperCase promo else toLowerCase promo)))
               else Some h3);
        h5 \<leftarrow> (if toLowerCase p = CHR ''k'' \<and> \<bar>bf - af\<bar> = 2
               then do { h' \<leftarrow> castle_rook_h h4 s ar bf;
                         write_state h' s (\<lambda>so. so\<lparr> o_castling := drop_rights isW (o_castling so) \<rparr>) }
               else Some h4);
        h' \<leftarrow> counters_h h5 s p af ar br mv;
        this_st \<leftarrow> load h' this;
        before \<leftarrow> boardToArr (board this_st);
        s_st \<leftarrow> load h' s;
        after \<leftarrow> boardToArr (board s_st);
        fen \<leftarrow> getFEN h' s;
        Some (Ok s_st fen \<lparr> i_from = from, i_to = to, i_piece = p,
                              i_captured = mcaptured mv, i_before = before, i_after = after \<rparr>, h')
      })"

definition move_h :: "store \<Rightarrow> addr \<Rightarrow> string \<Rightarrow> string \<Rightarrow> char option \<Rightarrow> (move_result \<times> store) option" where
  "move_h h this from to promotion = do {
     (h0, s) \<leftarrow> clone h this;
     let (af, ar) = sqToFR from;
     po \<leftarrow> read_cell h0 s ar af;
     case po of
       None \<Rightarrow> Some (Fail ''empty'', h0)
     | Some p \<Rightarrow> do {
         so \<leftarrow> read_state h0 s;
         let isW = isWhitePiece p;
         if (isW \<and> o_turn so \<noteq> ''w'') \<or> (\<not> isW \<and> o_turn so \<noteq> ''b'') then Some (Fail ''turn'', h0)
         else do {
           this_st \<leftarrow> load h0 this;
           moves \<leftarrow> movesFrom this_st from;
           case find (\<lambda>m. mto m = to) moves of
             None \<Rightarrow> Some (Fail ''illegal'', h0)
           | Some mv \<Rightarrow> apply_move_h h0 this s from to promotion p mv
         }
       }
   }"

definition empty_store :: store where
  "empty_store = \<lparr> rules = Map.empty, states = Map.empty, arrays = Map.empty, ranks = Map.empty, nxt = 0 \<rparr>"

text \<open>\<open>new LightRules()\<close> in the empty store: the engine is at address 10.\<close>

definition fresh_engine :: "store \<times> addr" where
  "fresh_engine = (let (h1, sa) = alloc_state empty_store initial_state; e = nxt h1
                   in (h1\<lparr> rules := (rules h1)(e \<mapsto> sa), nxt := e + 1 \<rparr>, e))"

text \<open>
  An engine lives in a part \<open>P\<close> of the addresses when its four kinds of objects are
  there; two stores agree below \<open>n\<close> when they hold the same objects at the addresses
  below \<open>n\<close>.
\<close>

definition lives :: "(addr \<Rightarrow> bool) \<Rightarrow> store \<Rightarrow> addr \<Rightarrow> bool" where
  "lives P h e =
     (P e \<and> (case rules h e of None \<Rightarrow> False
      | Some sa \<Rightarrow> P sa \<and> (case states h sa of None \<Rightarrow> False
      | Some so \<Rightarrow> P (o_board so) \<and> (case arrays h (o_board so) of None \<Rightarrow> False
      | Some ba \<Rightarrow> distinct ba \<and> (\<forall>ra \<in> set ba. P ra \<and> ranks h ra \<noteq> None)))))"

text \<open>The state object that \<open>alloc_state\<close> makes for a state value.\<close>

definition obj_of :: "state \<Rightarrow> addr \<Rightarrow> state_obj" where
  "obj_of st ba = \<lparr> o_board = ba, o_turn = turn st, o_castling = castling st, o_ep = ep st,
                    o_halfmove = halfmove st, o_fullmove = fullmove st \<rparr>"

definition agree :: "addr \<Rightarrow> store \<Rightarrow> store \<Rightarrow> bool" where
  "agree n h h' =
     (\<forall>a < n. rules h' a = rules h a \<and> states h' a = states h a
             \<and> arrays h' a = arrays h a \<and> ranks h' a = ranks h a)"

definition models :: "addr \<Rightarrow> store \<Rightarrow> addr \<Rightarrow> state \<Rightarrow> bool" where
  "models n h s st = (lives (\<lambda>a. n \<le> a) h s \<and> load h s = Some st)"

text \<open>
  A step on the copy \<open>s\<close> in the store follows the step on the state value: both raise,
  or the state value is what the store holds for \<open>s\<close> afterwards and nothing below \<open>n\<close>
  has changed since \<open>h0\<close>. The same for the whole call and its result.
\<close>

definition tracks :: "addr \<Rightarrow> store \<Rightarrow> addr \<Rightarrow> store option \<Rightarrow> state option \<Rightarrow> bool" where
  "tracks n h0 s X Y =
     (case Y of None \<Rightarrow> X = None
      | Some st' \<Rightarrow> (\<exists>h'. X = Some h' \<and> models n h' s st' \<and> agree n h0 h'))"

definition yields :: "addr \<Rightarrow> store \<Rightarrow> ('a \<times> store) option \<Rightarrow> 'a option \<Rightarrow> bool" where
  "yields n h0 X Y =
     (case Y of None \<Rightarrow> X = None
      | Some res \<Rightarrow> (\<exists>h'. X = Some (res, h') \<and> agree n h0 h'))"

section \<open>The start position\<close>

lemma parseFEN_START_FEN: "parseFEN START_FEN = Some initial_state"
  by code_simp

section \<open>Square labels\<close>

lemma int8_cases: "0 \<le> (x::int) \<Longrightarrow> x < 8 \<Longrightarrow> x = 0 \<or> x = 1 \<or> x = 2 \<or> x = 3 \<or> x = 4 \<or> x = 5 \<or> x = 6 \<or> x = 7"
  by arith

lemma indexOf_FILES: "0 \<le> f \<Longrightarrow> f < 8 \<Longrightarrow> indexOf FILES (Some (FILES ! nat f)) = f"
  by (drule (1) int8_cases) (auto simp: indexOf_def FILES_def)

lemma indexOf_RANKS: "0 \<le> r \<Longrightarrow> r < 8 \<Longrightarrow> indexOf RANKS (Some (RANKS ! nat r)) = r"
  by (drule (1) int8_cases) (auto simp: indexOf_def RANKS_def)

lemma sq_on_board: "0 \<le> f \<Longrightarrow> f < 8 \<Longrightarrow> 0 \<le> r \<Longrightarrow> r < 8 \<Longrightarrow> sq f r = [FILES ! nat f, RANKS ! nat r]"
  by (simp add: sq_def stringified_def nth_opt_def FILES_def RANKS_def)

lemma sqToFR_sq: "0 \<le> f \<Longrightarrow> f < 8 \<Longrightarrow> 0 \<le> r \<Longrightarrow> r < 8 \<Longrightarrow> sqToFR (sq f r) = (f, r)"
  by (simp add: sq_on_board sqToFR_def char_at_def indexOf_FILES indexOf_RANKS)

lemma sq_inj: "0 \<le> f \<Longrightarrow> f < 8 \<Longrightarrow> 0 \<le> r \<Longrightarrow> r < 8 \<Longrightarrow> 0 \<le> f' \<Longrightarrow> f' < 8 \<Longrightarrow> 0 \<le> r' \<Longrightarrow> r' < 8 \<Longrightarrow>
   sq f r = sq f' r' \<Longrightarrow> f = f' \<and> r = r'"
  by (metis sqToFR_sq prod.inject)

section \<open>Reading and writing cells\<close>

lemma at_shape: "shape b \<Longrightarrow> 0 \<le> r \<Longrightarrow> r < 8 \<Longrightarrow> \<exists>c. at b r f = Some c"
  by (simp add: shape_def at_def nth_opt_def)

lemma at_None_iff: "shape b \<Longrightarrow> at b r f = None \<longleftrightarrow> \<not> (0 \<le> r \<and> r < 8)"
  by (simp add: shape_def at_def nth_opt_def)

lemma at_outside_file: "shape b \<Longrightarrow> 0 \<le> r \<Longrightarrow> r < 8 \<Longrightarrow> \<not> (0 \<le> f \<and> f < 8) \<Longrightarrow> at b r f = Some None"
  by (auto simp add: shape_def at_def nth_opt_def)

lemma put_shape:
  assumes "shape b" "0 \<le> r" "r < 8" "0 \<le> f" "f < 8"
  shows "\<exists>b'. put b r f v = Some b' \<and> shape b' \<and>
           (\<forall>r' f'. at b' r' f' = (if r' = r \<and> f' = f then Some v else at b r' f'))"
proof -
  let ?b' = "b[nat r := js_set (b ! nat r) f v]"
  have len: "length (b ! nat r) = 8" using assms by (simp add: shape_def)
  have p: "put b r f v = Some ?b'" using assms by (simp add: put_def nth_opt_def shape_def)
  have js: "js_set (b ! nat r) f v = (b ! nat r)[nat f := v]" using assms len by (simp add: js_set_def)
  have s: "shape ?b'" using assms len js by (auto simp: shape_def dest!: set_update_subset_insert[THEN subsetD])
  have a: "at ?b' r' f' = (if r' = r \<and> f' = f then Some v else at b r' f')" for r' f'
    using assms len js
    by (auto simp: at_def nth_opt_def shape_def nth_list_update nat_eq_iff)
  show ?thesis using p s a by blast
qed

lemma wf_board_at: "wf_board b \<Longrightarrow> 0 \<le> r \<Longrightarrow> r < 8 \<Longrightarrow> 0 \<le> f \<Longrightarrow> f < 8 \<Longrightarrow> \<exists>c. at b r f = Some c \<and> wf_cell r c"
  using at_shape[of b r f] by (auto simp: wf_board_def cells_ok_def)

lemma wf_board_shape: "wf_board b \<Longrightarrow> shape b"
  by (simp add: wf_board_def cells_ok_def)

section \<open>The move generator returns\<close>

lemma toLowerCase_eq_p: "toLowerCase c = CHR ''p'' \<longleftrightarrow> c = CHR ''p'' \<or> c = CHR ''P''"
  by (auto simp: toLowerCase_def upper_letters_def lower_letters_def split: if_splits)

lemma toLowerCase_eq_k: "toLowerCase c = CHR ''k'' \<longleftrightarrow> c = CHR ''k'' \<or> c = CHR ''K''"
  by (auto simp: toLowerCase_def upper_letters_def lower_letters_def split: if_splits)

lemma isWhitePiece_simps: "isWhitePiece CHR ''P''" "\<not> isWhitePiece CHR ''p''" "isWhitePiece CHR ''K''" "\<not> isWhitePiece CHR ''k''"
  by (simp_all add: isWhitePiece_def toUpperCase_def upper_letters_def lower_letters_def)

lemma those_map_Some:
  "(\<And>x. x \<in> set xs \<Longrightarrow> \<exists>y. g x = Some y) \<Longrightarrow> those (map g xs) = Some (map (\<lambda>x. the (g x)) xs)"
  by (induction xs) (auto split: option.splits)

lemma concat_opt_Some:
  assumes "\<And>x. x \<in> set xs \<Longrightarrow> \<exists>y. g x = Some y \<and> (\<forall>m \<in> set y. Q m)"
  shows "\<exists>ys. concat_opt (map g xs) = Some ys \<and> (\<forall>m \<in> set ys. Q m)"
proof -
  have "those (map g xs) = Some (map (\<lambda>x. the (g x)) xs)"
    using assms by (intro those_map_Some) blast
  moreover have "\<forall>m \<in> set (concat (map (\<lambda>x. the (g x)) xs)). Q m"
    using assms by fastforce
  ultimately show ?thesis by (simp add: concat_opt_def)
qed

lemma jump_ok:
  assumes "shape b"
  shows "\<exists>y. jump b isW f r d = Some y \<and> (\<forall>m \<in> set y. simple m \<and> pf m = f + fst d \<and> pr m = r + snd d)"
proof (cases "on_board (f + fst d) (r + snd d)")
  case True
  then obtain c where "at b (r + snd d) (f + fst d) = Some c"
    using at_shape[OF assms, of "r + snd d" "f + fst d"] by (auto simp: on_board_def)
  then show ?thesis using True by (auto simp: jump_def Let_def simple_def plain_def)
next
  case False
  then show ?thesis by (simp add: jump_def Let_def)
qed

lemma ray_loop_ok:
  assumes "shape b" "df \<in> {- 1, 0, 1}" "dr \<in> {- 1, 0, 1}" "df \<noteq> 0 \<or> dr \<noteq> 0"
  shows "\<exists>y. ray_loop b isW F R df dr = Some y \<and> (\<forall>m \<in> set y. simple m)"
proof (induction "nat (if df = 1 then 8 - F else if df = - 1 then F + 1 else if dr = 1 then 8 - R else R + 1)"
       arbitrary: F R rule: less_induct)
  case less
  show ?case
  proof (cases "F \<ge> 0 \<and> F < 8 \<and> R \<ge> 0 \<and> R < 8")
    case False
    then show ?thesis by (subst ray_loop.simps) auto
  next
    case True
    then obtain t where t: "at b R F = Some t" using at_shape[OF assms(1), of R F] by auto
    show ?thesis
    proof (cases t)
      case (Some a)
      then show ?thesis using True t
        by (subst ray_loop.simps) (auto simp: simple_def plain_def on_board_def)
    next
      case None
      have "\<exists>y. ray_loop b isW (F + df) (R + dr) df dr = Some y \<and> (\<forall>m \<in> set y. simple m)"
        using assms(2-4) True by (intro less) auto
      then show ?thesis using True t None
        by (subst ray_loop.simps) (auto simp: simple_def plain_def on_board_def)
    qed
  qed
qed

lemma ray_ok:
  assumes "shape b" "fst d \<in> {- 1, 0, 1}" "snd d \<in> {- 1, 0, 1}" "fst d \<noteq> 0 \<or> snd d \<noteq> 0"
  shows "\<exists>y. ray b isW f r d = Some y \<and> (\<forall>m \<in> set y. simple m)"
  unfolding ray_def using ray_loop_ok[OF assms] by blast

lemma pawn_capture_ok:
  assumes "shape b"
  shows "\<exists>y. pawn_capture b isW f r df = Some y \<and> (\<forall>m \<in> set y. simple m \<and> pr m = r + dir_of isW)"
proof (cases "f + df \<ge> 0 \<and> f + df < 8 \<and> r + dir_of isW \<ge> 0 \<and> r + dir_of isW < 8")
  case True
  then obtain c where "at b (r + dir_of isW) (f + df) = Some c"
    using at_shape[OF assms, of "r + dir_of isW" "f + df"] by auto
  then show ?thesis using True
    by (auto simp: pawn_capture_def Let_def simple_def plain_def on_board_def dir_of_def)
next
  case False
  then show ?thesis by (auto simp: pawn_capture_def Let_def dir_of_def)
qed

lemma wf_ep_target:
  assumes "wf_ep e" "e \<noteq> ''-''"
  shows "0 \<le> fst (sqToFR e) \<and> fst (sqToFR e) < 8 \<and> 0 \<le> snd (sqToFR e) \<and> snd (sqToFR e) < 8 \<and> e \<noteq> []
         \<and> e = sq (fst (sqToFR e)) (snd (sqToFR e))"
proof -
  from assms obtain f r where fr: "0 \<le> f" "f < 8" "0 \<le> r" "r < 8" "e = sq f r"
    by (auto simp: wf_ep_def)
  then have "sqToFR e = (f, r)" by (simp add: sqToFR_sq)
  moreover have "e \<noteq> []" using fr by (simp add: sq_on_board)
  ultimately show ?thesis using fr by simp
qed

lemma pawn_pushes_ok:
  assumes sh: "shape (board st)" and ep: "wf_ep (ep st)"
    and f: "0 \<le> f" "f < 8" and r: "0 \<le> r" "r < 8"
    and nx: "0 \<le> r + dir_of isW" "r + dir_of isW < 8"
  shows "\<exists>y. pawn_pushes st isW f r = Some y \<and>
           (\<forall>m \<in> set y. on_board (pf m) (pr m) \<and> (pep m \<longrightarrow> pr m = r + dir_of isW)
                \<and> (pr m = r + dir_of isW \<or> (pr m = r + 2 * dir_of isW \<and> pf m = f)))"
proof -
  let ?d = "dir_of isW"
  let ?Q = "\<lambda>m. on_board (pf m) (pr m) \<and> (pep m \<longrightarrow> pr m = r + ?d)
                \<and> (pr m = r + ?d \<or> (pr m = r + 2 * ?d \<and> pf m = f))"
  obtain o1 where o1: "at (board st) (r + ?d) f = Some o1"
    using at_shape[OF sh nx] by blast
  have two: "\<exists>y. (if r = (if isW then 1 else 6)
                then do {
                  o1' \<leftarrow> at (board st) (r + ?d) f;
                  if o1' = None
                  then do { o2 \<leftarrow> at (board st) (r + 2 * ?d) f;
                            Some (if o2 = None then [plain f (r + 2 * ?d)] else []) }
                  else Some []
                }
                else Some []) = Some y \<and> (\<forall>m \<in> set y. ?Q m)"
  proof (cases "r = (if isW then 1 else 6)")
    case True
    then have "0 \<le> r + 2 * ?d" "r + 2 * ?d < 8" by (auto simp: dir_of_def split: if_splits)
    then obtain o2 where "at (board st) (r + 2 * ?d) f = Some o2"
      using at_shape[OF sh] by blast
    then show ?thesis using True o1 f \<open>0 \<le> r + 2 * ?d\<close> \<open>r + 2 * ?d < 8\<close>
      by (auto simp: plain_def on_board_def)
  next
    case False
    then show ?thesis by simp
  qed
  then obtain y2 where y2: "(if r = (if isW then 1 else 6)
                then do {
                  o1' \<leftarrow> at (board st) (r + ?d) f;
                  if o1' = None
                  then do { o2 \<leftarrow> at (board st) (r + 2 * ?d) f;
                            Some (if o2 = None then [plain f (r + 2 * ?d)] else []) }
                  else Some []
                }
                else Some []) = Some y2" "\<forall>m \<in> set y2. ?Q m" by blast
  have "\<exists>ys. concat_opt (map (pawn_capture (board st) isW f r) [- 1, 1]) = Some ys \<and> (\<forall>m \<in> set ys. simple m \<and> pr m = r + ?d)"
    by (rule concat_opt_Some) (use pawn_capture_ok[OF sh] in blast)
  then obtain caps where caps: "concat_opt (map (pawn_capture (board st) isW f r) [- 1, 1]) = Some caps"
     "\<forall>m \<in> set caps. simple m \<and> pr m = r + ?d" by blast
  let ?eps = "(if ep st \<noteq> [] \<and> ep st \<noteq> ''-''
                 then (let (ef, er) = sqToFR (ep st)
                       in if er = r + ?d \<and> \<bar>ef - f\<bar> = 1
                          then [\<lparr> pf = ef, pr = er, pep = True, pcastle = None \<rparr>] else [])
                 else [])"
  have eps: "\<forall>m \<in> set ?eps. ?Q m"
  proof (cases "ep st \<noteq> [] \<and> ep st \<noteq> ''-''")
    case True
    obtain ef er where e: "sqToFR (ep st) = (ef, er)" by (cases "sqToFR (ep st)")
    with wf_ep_target[OF ep] True have "0 \<le> ef" "ef < 8" "0 \<le> er" "er < 8" by auto
    then show ?thesis using True e by (auto simp: on_board_def)
  next
    case False
    then show ?thesis by auto
  qed
  have one: "\<forall>m \<in> set (if o1 = None then [plain f (r + ?d)] else []). ?Q m"
    using f nx by (auto simp: plain_def on_board_def)
  have "pawn_pushes st isW f r = Some ((if o1 = None then [plain f (r + ?d)] else []) @ y2 @ caps @ ?eps)"
    using o1 y2(1) caps(1) unfolding pawn_pushes_def Let_def dir_of_def by simp
  moreover have "\<forall>m \<in> set ((if o1 = None then [plain f (r + ?d)] else []) @ y2 @ caps @ ?eps). ?Q m"
    using one y2(2) caps(2) eps unfolding set_append by (auto simp: simple_def)
  ultimately show ?thesis by blast
qed

lemma castle_pushes_ok:
  assumes sh: "shape (board st)" and r: "0 \<le> r" "r < 8"
  shows "\<exists>y. castle_pushes st isW r = Some y \<and>
           (\<forall>m \<in> set y. simple m \<and> pr m = r \<and> (pf m = 6 \<or> pf m = 2))"
proof -
  obtain c1 c2 c3 c5 c6 where c:
    "at (board st) r 1 = Some c1" "at (board st) r 2 = Some c2" "at (board st) r 3 = Some c3"
    "at (board st) r 5 = Some c5" "at (board st) r 6 = Some c6"
    using at_shape[OF sh r] by metis
  show ?thesis using c r
    by (auto simp: castle_pushes_def simple_def on_board_def)
qed

lemma dirs_unit:
  "d \<in> set BISHOP_DIRS \<union> set ROOK_DIRS \<union> set QUEEN_DIRS \<Longrightarrow>
     fst d \<in> {- 1, 0, 1} \<and> snd d \<in> {- 1, 0, 1} \<and> (fst d \<noteq> 0 \<or> snd d \<noteq> 0)"
  by (auto simp: BISHOP_DIRS_def ROOK_DIRS_def QUEEN_DIRS_def)

lemma king_steps_unit: "d \<in> set KING_STEPS \<Longrightarrow> \<bar>fst d\<bar> \<le> 1"
  by (auto simp: KING_STEPS_def)

lemma rays_ok:
  assumes "shape b" "set ds \<subseteq> set BISHOP_DIRS \<union> set ROOK_DIRS \<union> set QUEEN_DIRS"
  shows "\<exists>ys. concat_opt (map (ray b isW f r) ds) = Some ys \<and> (\<forall>m \<in> set ys. simple m)"
proof (rule concat_opt_Some)
  fix d assume "d \<in> set ds"
  with assms(2) have "d \<in> set BISHOP_DIRS \<union> set ROOK_DIRS \<union> set QUEEN_DIRS" by blast
  from dirs_unit[OF this] show "\<exists>y. ray b isW f r d = Some y \<and> (\<forall>m\<in>set y. simple m)"
    using ray_ok[OF assms(1), of d isW f r] by blast
qed

lemma piece_pushes_ok:
  assumes wf: "wf_board (board st)" "wf_ep (ep st)"
    and f: "0 \<le> f" "f < 8" and r: "0 \<le> r" "r < 8"
    and p: "at (board st) r f = Some (Some p)"
  shows "\<exists>y. piece_pushes st p (isWhitePiece p) f r = Some y \<and> (\<forall>m \<in> set y. push_ok p f r m)"
proof -
  have sh: "shape (board st)" using wf(1) by (rule wf_board_shape)
  have cell: "wf_cell r (Some p)" using wf_board_at[OF wf(1) r f] p by simp
  let ?k = "toLowerCase p"
  consider (pawn) "?k = CHR ''p''" | (knight) "?k \<noteq> CHR ''p''" "?k = CHR ''n''"
    | (bishop) "?k \<noteq> CHR ''p''" "?k \<noteq> CHR ''n''" "?k = CHR ''b''"
    | (rook) "?k \<noteq> CHR ''p''" "?k \<noteq> CHR ''n''" "?k \<noteq> CHR ''b''" "?k = CHR ''r''"
    | (queen) "?k \<noteq> CHR ''p''" "?k \<noteq> CHR ''n''" "?k \<noteq> CHR ''b''" "?k \<noteq> CHR ''r''" "?k = CHR ''q''"
    | (king) "?k \<noteq> CHR ''p''" "?k \<noteq> CHR ''n''" "?k \<noteq> CHR ''b''" "?k \<noteq> CHR ''r''" "?k \<noteq> CHR ''q''" "?k = CHR ''k''"
    | (other) "?k \<noteq> CHR ''p''" "?k \<noteq> CHR ''n''" "?k \<noteq> CHR ''b''" "?k \<noteq> CHR ''r''" "?k \<noteq> CHR ''q''" "?k \<noteq> CHR ''k''"
    by blast
  then show ?thesis
  proof cases
    case pawn
    then have "p = CHR ''p'' \<or> p = CHR ''P''" by (simp add: toLowerCase_eq_p)
    then have nx: "0 \<le> r + dir_of (isWhitePiece p)" "r + dir_of (isWhitePiece p) < 8"
      using cell r by (auto simp: wf_cell_def dir_of_def isWhitePiece_simps)
    from pawn_pushes_ok[OF sh wf(2) f r nx] pawn show ?thesis
      by (auto simp: piece_pushes_def push_ok_def)
  next
    case knight
    have "\<exists>ys. concat_opt (map (jump (board st) (isWhitePiece p) f r) KNIGHT_JUMPS) = Some ys \<and> (\<forall>m \<in> set ys. simple m)"
      by (rule concat_opt_Some) (use jump_ok[OF sh] in blast)
    with knight show ?thesis by (auto simp: piece_pushes_def push_ok_def simple_def)
  next
    case bishop
    with rays_ok[OF sh, of BISHOP_DIRS "isWhitePiece p" f r] show ?thesis
      by (auto simp: piece_pushes_def push_ok_def simple_def)
  next
    case rook
    with rays_ok[OF sh, of ROOK_DIRS "isWhitePiece p" f r] show ?thesis
      by (auto simp: piece_pushes_def push_ok_def simple_def)
  next
    case queen
    with rays_ok[OF sh, of QUEEN_DIRS "isWhitePiece p" f r] show ?thesis
      by (auto simp: piece_pushes_def push_ok_def simple_def)
  next
    case king
    have "\<exists>ys. concat_opt (map (jump (board st) (isWhitePiece p) f r) KING_STEPS) = Some ys
            \<and> (\<forall>m \<in> set ys. simple m \<and> \<bar>pf m - f\<bar> \<le> 1)"
    proof (rule concat_opt_Some)
      fix d assume d: "d \<in> set KING_STEPS"
      from jump_ok[OF sh, of "isWhitePiece p" f r d] king_steps_unit[OF d]
      show "\<exists>y. jump (board st) (isWhitePiece p) f r d = Some y \<and> (\<forall>m\<in>set y. simple m \<and> \<bar>pf m - f\<bar> \<le> 1)"
        by auto
    qed
    then obtain adj where adj: "concat_opt (map (jump (board st) (isWhitePiece p) f r) KING_STEPS) = Some adj"
      "\<forall>m \<in> set adj. simple m \<and> \<bar>pf m - f\<bar> \<le> 1" by blast
    from castle_pushes_ok[OF sh r, of "isWhitePiece p"] obtain cs where
      cs: "castle_pushes st (isWhitePiece p) r = Some cs" "\<forall>m \<in> set cs. simple m \<and> pr m = r \<and> (pf m = 6 \<or> pf m = 2)"
      by blast
    have "piece_pushes st p (isWhitePiece p) f r = Some (adj @ cs)"
      using king adj(1) cs(1) by (simp add: piece_pushes_def)
    moreover have "\<forall>m \<in> set (adj @ cs). push_ok p f r m"
      using adj(2) cs(2) king by (auto simp: push_ok_def simple_def)
    ultimately show ?thesis by blast
  next
    case other
    then show ?thesis by (simp add: piece_pushes_def)
  qed
qed

lemma at_piece_file: "shape b \<Longrightarrow> at b r f = Some (Some p) \<Longrightarrow> 0 \<le> f \<and> f < 8 \<and> 0 \<le> r \<and> r < 8"
  using at_outside_file[of b r f] at_None_iff[of b r f] by fastforce

lemma movesFrom_ok:
  assumes wf: "wf_board (board st)" "wf_ep (ep st)"
    and sq: "sqToFR from = (f, r)" and r: "0 \<le> r" "r < 8"
  shows "\<exists>ms. movesFrom st from = Some ms \<and>
           (\<forall>mv \<in> set ms. \<exists>p m. at (board st) r f = Some (Some p) \<and> (if isWhitePiece p then ''w'' else ''b'') = turn st
                 \<and> push_ok p f r m \<and> mv = cand_of f r m)"
proof -
  have sh: "shape (board st)" using wf(1) by (rule wf_board_shape)
  obtain po where po: "at (board st) r f = Some po" using at_shape[OF sh r] by blast
  show ?thesis
  proof (cases po)
    case None
    then show ?thesis using po sq by (simp add: movesFrom_def)
  next
    case (Some p)
    with po have p: "at (board st) r f = Some (Some p)" by simp
    from at_piece_file[OF sh p] have f: "0 \<le> f" "f < 8" by auto
    from piece_pushes_ok[OF wf f r p] obtain y where
      y: "piece_pushes st p (isWhitePiece p) f r = Some y" "\<forall>m \<in> set y. push_ok p f r m" by blast
    show ?thesis
    proof (cases "(if isWhitePiece p then ''w'' else ''b'') = turn st")
      case True
      then have "movesFrom st from = Some (map (cand_of f r) y)"
        using p y(1) sq by (simp add: movesFrom_def Let_def cand_of_def[abs_def])
      then show ?thesis using y(2) p True by auto
    next
      case False
      then have "movesFrom st from = Some []"
        using p sq by (simp add: movesFrom_def Let_def)
      then show ?thesis by simp
    qed
  qed
qed

section \<open>What a move does\<close>

lemma nth_opt_shape: "shape b \<Longrightarrow> r < 8 \<Longrightarrow> nth_opt b (int r) = Some (b ! r)"
  by (simp add: shape_def nth_opt_def)

lemma boardToArr_shape: "shape b \<Longrightarrow> \<exists>y. boardToArr b = Some y"
proof -
  assume sh: "shape b"
  have "\<exists>ys. boardToArr b = Some ys \<and> (\<forall>m \<in> set ys. True)"
    unfolding boardToArr_def
    by (rule concat_opt_Some) (simp add: nth_opt_shape[OF sh])
  then show ?thesis by blast
qed

lemma boardToFEN_shape: "shape (board s) \<Longrightarrow> \<exists>fen. boardToFEN s = Some fen"
proof -
  assume sh: "shape (board s)"
  have "those (map (\<lambda>r. map_option (\<lambda>rw. enc_row (rank_cells rw) [] 0) (nth_opt (board s) (int r))) (rev [0..<8]))
        = Some (map (\<lambda>r. the (map_option (\<lambda>rw. enc_row (rank_cells rw) [] 0) (nth_opt (board s) (int r)))) (rev [0..<8]))"
    by (rule those_map_Some) (simp add: nth_opt_shape[OF sh])
  then show ?thesis by (simp add: boardToFEN_def)
qed

lemma promoted_wf: "promotion \<in> set PROMOTIONS \<Longrightarrow> wf_cell r (Some (promoted isW promotion))"
  by (cases isW) (auto simp: PROMOTIONS_def promoted_def Let_def wf_cell_def PIECES_def toUpperCase_def toLowerCase_def
        upper_letters_def lower_letters_def)

lemma wf_castling_drop: "wf_castling c \<Longrightarrow> wf_castling (drop_rights isW c)"
  by (auto simp: wf_castling_def drop_rights_def dest: notin_set_remove1 set_remove1_subset[THEN subsetD])

lemma rook_cells_shape:
  assumes sh: "shape b" and r: "0 \<le> ar" "ar < 8"
  shows "\<exists>b'. rook_cells b ar bf = Some b' \<and> shape b' \<and>
          (\<forall>r' f'. at b' r' f' =
             (if bf = 6 then (if r' = ar \<and> f' = 7 then Some None
                              else if r' = ar \<and> f' = 5 then at b ar 7 else at b r' f')
              else if bf = 2 then (if r' = ar \<and> f' = 0 then Some None
                                   else if r' = ar \<and> f' = 3 then at b ar 0 else at b r' f')
              else at b r' f'))"
proof -
  consider (k) "bf = 6" | (q) "bf \<noteq> 6" "bf = 2" | (n) "bf \<noteq> 6" "bf \<noteq> 2" by blast
  then show ?thesis
  proof cases
    case k
    obtain rk where rk: "at b ar 7 = Some rk" using at_shape[OF sh r] by blast
    from put_shape[OF sh r, of 5 rk] obtain b1 where
      b1: "put b ar 5 rk = Some b1" "shape b1" "\<forall>r' f'. at b1 r' f' = (if r' = ar \<and> f' = 5 then Some rk else at b r' f')"
      by auto
    from put_shape[OF b1(2) r, of 7 None] obtain b2 where
      b2: "put b1 ar 7 None = Some b2" "shape b2" "\<forall>r' f'. at b2 r' f' = (if r' = ar \<and> f' = 7 then Some None else at b1 r' f')"
      by auto
    have "rook_cells b ar bf = Some b2" using k rk b1(1) b2(1) by (simp add: rook_cells_def)
    then show ?thesis using b2(2,3) b1(3) rk k by auto
  next
    case q
    obtain rk where rk: "at b ar 0 = Some rk" using at_shape[OF sh r] by blast
    from put_shape[OF sh r, of 3 rk] obtain b1 where
      b1: "put b ar 3 rk = Some b1" "shape b1" "\<forall>r' f'. at b1 r' f' = (if r' = ar \<and> f' = 3 then Some rk else at b r' f')"
      by auto
    from put_shape[OF b1(2) r, of 0 None] obtain b2 where
      b2: "put b1 ar 0 None = Some b2" "shape b2" "\<forall>r' f'. at b2 r' f' = (if r' = ar \<and> f' = 0 then Some None else at b1 r' f')"
      by auto
    have "rook_cells b ar bf = Some b2" using q rk b1(1) b2(1) by (simp add: rook_cells_def)
    then show ?thesis using b2(2,3) b1(3) rk q by auto
  next
    case n
    then show ?thesis using sh by (simp add: rook_cells_def)
  qed
qed

lemma put_cell_Some: "put (board s) r f v = Some b \<Longrightarrow> put_cell s r f v = Some (s\<lparr> board := b \<rparr>)"
  by (simp add: put_cell_def)

lemma castle_rook_cells: "castle_rook s ar bf = map_option (\<lambda>b. s\<lparr> board := b \<rparr>) (rook_cells (board s) ar bf)"
  by (cases "at (board s) ar 7"; cases "at (board s) ar 0")
     (auto simp: castle_rook_def rook_cells_def put_cell_def split: Option.bind_splits)

lemma counters_next_state:
  "counters (s\<lparr> board := b5, castling := (if castles p af bf then drop_rights (isWhitePiece p) (castling s) else castling s) \<rparr>)
            p af ar br mv
   = next_state s b5 p af ar bf br mv"
  by (rule state.equality) (auto simp: counters_def next_state_def Let_def dir_of_def)

lemma apply_move_ok:
  assumes sh: "shape (board st)"
    and a: "sqToFR from = (af, ar)" and b: "sqToFR to = (bf, br)"
    and p: "at (board st) ar af = Some (Some p)"
    and m: "push_ok p af ar m" "pf m = bf" "pr m = br" "mep mv = pep m"
  shows "\<exists>b5 fen before after.
           apply_move st st from to promotion p mv
             = Some (Ok (next_state st b5 p af ar bf br mv) fen
                       \<lparr> i_from = from, i_to = to, i_piece = p, i_captured = mcaptured mv,
                         i_before = before, i_after = after \<rparr>)
           \<and> shape b5 \<and> cells_after (board st) b5 p promotion (mep mv) af ar bf br
           \<and> boardToFEN (next_state st b5 p af ar bf br mv) = Some fen"
proof -
  let ?isW = "isWhitePiece p"
  let ?d = "dir_of ?isW"
  from at_piece_file[OF sh p] have ain: "0 \<le> af" "af < 8" "0 \<le> ar" "ar < 8" by auto
  from m have bin: "0 \<le> bf" "bf < 8" "0 \<le> br" "br < 8" by (auto simp: push_ok_def on_board_def)
  have epr: "mep mv \<Longrightarrow> br - ?d = ar" using m by (auto simp: push_ok_def)
  \<comment> \<open>the en-passant square\<close>
  have "\<exists>b1. (if mep mv then put (board st) (br - ?d) bf None else Some (board st)) = Some b1 \<and> shape b1
          \<and> (\<forall>r' f'. at b1 r' f' = (if mep mv \<and> r' = br - ?d \<and> f' = bf then Some None else at (board st) r' f'))"
  proof (cases "mep mv")
    case True
    with epr have "0 \<le> br - ?d" "br - ?d < 8" using ain by auto
    from put_shape[OF sh this bin(1,2), of None] True show ?thesis by auto
  next
    case False
    then show ?thesis using sh by simp
  qed
  then obtain b1 where b1: "(if mep mv then put (board st) (br - ?d) bf None else Some (board st)) = Some b1"
    "shape b1" "\<forall>r' f'. at b1 r' f' = (if mep mv \<and> r' = br - ?d \<and> f' = bf then Some None else at (board st) r' f')"
    by blast
  from put_shape[OF b1(2) bin(3,4) bin(1,2), of "Some p"] obtain b2 where
    b2: "put b1 br bf (Some p) = Some b2" "shape b2"
        "\<forall>r' f'. at b2 r' f' = (if r' = br \<and> f' = bf then Some (Some p) else at b1 r' f')" by blast
  from put_shape[OF b2(2) ain(3,4) ain(1,2), of None] obtain b3 where
    b3: "put b2 ar af None = Some b3" "shape b3"
        "\<forall>r' f'. at b3 r' f' = (if r' = ar \<and> f' = af then Some None else at b2 r' f')" by blast
  have "\<exists>b4. (if promotes p br then put b3 br bf (Some (promoted ?isW promotion)) else Some b3) = Some b4 \<and> shape b4
          \<and> (\<forall>r' f'. at b4 r' f' = (if promotes p br \<and> r' = br \<and> f' = bf
                                     then Some (Some (promoted ?isW promotion)) else at b3 r' f'))"
  proof (cases "promotes p br")
    case True
    from put_shape[OF b3(2) bin(3,4) bin(1,2), of "Some (promoted ?isW promotion)"] True show ?thesis by auto
  next
    case False
    then show ?thesis using b3(2) by simp
  qed
  then obtain b4 where b4: "(if promotes p br then put b3 br bf (Some (promoted ?isW promotion)) else Some b3) = Some b4"
    "shape b4" "\<forall>r' f'. at b4 r' f' = (if promotes p br \<and> r' = br \<and> f' = bf
                                     then Some (Some (promoted ?isW promotion)) else at b3 r' f')" by blast
  have "\<exists>b5. (if castles p af bf then rook_cells b4 ar bf else Some b4) = Some b5 \<and> shape b5
          \<and> (\<forall>r' f'. at b5 r' f' =
           (if castles p af bf \<and> bf = 6
            then (if r' = ar \<and> f' = 7 then Some None
                  else if r' = ar \<and> f' = 5 then at b4 ar 7 else at b4 r' f')
            else if castles p af bf \<and> bf = 2
            then (if r' = ar \<and> f' = 0 then Some None
                  else if r' = ar \<and> f' = 3 then at b4 ar 0 else at b4 r' f')
            else at b4 r' f'))"
  proof (cases "castles p af bf")
    case True
    from rook_cells_shape[OF b4(2) ain(3,4), of bf] True show ?thesis by auto
  next
    case False
    then show ?thesis using b4(2) by simp
  qed
  then obtain b5 where b5: "(if castles p af bf then rook_cells b4 ar bf else Some b4) = Some b5" "shape b5"
     "\<forall>r' f'. at b5 r' f' =
           (if castles p af bf \<and> bf = 6
            then (if r' = ar \<and> f' = 7 then Some None
                  else if r' = ar \<and> f' = 5 then at b4 ar 7 else at b4 r' f')
            else if castles p af bf \<and> bf = 2
            then (if r' = ar \<and> f' = 0 then Some None
                  else if r' = ar \<and> f' = 3 then at b4 ar 0 else at b4 r' f')
            else at b4 r' f')" by blast
  obtain before where before: "boardToArr (board st) = Some before" using boardToArr_shape[OF sh] by blast
  obtain after where after: "boardToArr b5 = Some after" using boardToArr_shape[OF b5(2)] by blast
  let ?s' = "next_state st b5 p af ar bf br mv"
  have "shape (board ?s')" using b5(2) by (simp add: next_state_def)
  then obtain fen where fen: "boardToFEN ?s' = Some fen" using boardToFEN_shape by blast
  have b3': "\<forall>r' f'. at b3 r' f' =
           (if r' = ar \<and> f' = af then Some None
            else if r' = br \<and> f' = bf then Some (Some p)
            else if mep mv \<and> r' = br - ?d \<and> f' = bf then Some None
            else at (board st) r' f')"
    using b3(3) b2(3) b1(3) by simp
  have cells: "cells_after (board st) b5 p promotion (mep mv) af ar bf br"
    unfolding cells_after_def using b3' b4(3) b5(3) by blast
  have "apply_move st st from to promotion p mv
             = Some (Ok ?s' fen
                       \<lparr> i_from = from, i_to = to, i_piece = p, i_captured = mcaptured mv,
                         i_before = before, i_after = after \<rparr>)"
  proof -
    let ?c = "(if castles p af bf then drop_rights ?isW (castling st) else castling st)"
    let ?s5 = "st\<lparr> board := b5, castling := ?c \<rparr>"
    have e1: "(if mep mv then put_cell st (br - ?d) bf None else Some st) = Some (st\<lparr> board := b1 \<rparr>)"
      using b1(1) by (auto simp: put_cell_Some)
    have e2: "put_cell (st\<lparr> board := b1 \<rparr>) br bf (Some p) = Some (st\<lparr> board := b2 \<rparr>)"
      using b2(1) by (simp add: put_cell_def)
    have e3: "put_cell (st\<lparr> board := b2 \<rparr>) ar af None = Some (st\<lparr> board := b3 \<rparr>)"
      using b3(1) by (simp add: put_cell_def)
    have e4: "(if promotes p br then put_cell (st\<lparr> board := b3 \<rparr>) br bf (Some (promoted ?isW promotion))
               else Some (st\<lparr> board := b3 \<rparr>)) = Some (st\<lparr> board := b4 \<rparr>)"
      using b4(1) by (auto simp: put_cell_def)
    have e5: "(if castles p af bf
               then Option.bind (castle_rook (st\<lparr> board := b4 \<rparr>) ar bf)
                      (\<lambda>s'. Some (s'\<lparr> castling := drop_rights ?isW (castling s') \<rparr>))
               else Some (st\<lparr> board := b4 \<rparr>)) = Some ?s5"
    proof (cases "castles p af bf")
      case True
      then have "rook_cells b4 ar bf = Some b5" using b5(1) by simp
      then show ?thesis using True by (simp add: castle_rook_cells)
    next
      case False
      then have "b5 = b4" using b5(1) by simp
      then show ?thesis using False by simp
    qed
    have cn: "counters ?s5 p af ar br mv = ?s'" by (rule counters_next_state)
    have after': "boardToArr (board (counters ?s5 p af ar br mv)) = Some after"
      unfolding cn using after by (simp add: next_state_def)
    have fen': "boardToFEN (counters ?s5 p af ar br mv) = Some fen" unfolding cn by (rule fen)
    note eqs = e1 e4 e5 after' fen'
    note eqs' = eqs[unfolded dir_of_def promotes_def castles_def promoted_def Let_def]
    have "apply_move st st from to promotion p mv
             = Some (Ok (counters ?s5 p af ar br mv) fen
                       \<lparr> i_from = from, i_to = to, i_piece = p, i_captured = mcaptured mv,
                         i_before = before, i_after = after \<rparr>)"
      unfolding apply_move_def castles_def
      by (simp only: a b split_conv Let_def eqs' e2 e3 before Option.bind.simps)
    then show ?thesis unfolding cn .
  qed
  with b5(2) cells fen show ?thesis by blast
qed

lemma move_unfold:
  assumes "sqToFR from = (af, ar)"
  shows "move st from to promotion =
     (case at (board st) ar af of
        None \<Rightarrow> None
      | Some None \<Rightarrow> Some (Fail ''empty'')
      | Some (Some p) \<Rightarrow>
          if (isWhitePiece p \<and> turn st \<noteq> ''w'') \<or> (\<not> isWhitePiece p \<and> turn st \<noteq> ''b'') then Some (Fail ''turn'')
          else (case movesFrom st from of
                  None \<Rightarrow> None
                | Some ms \<Rightarrow> (case find (\<lambda>m. mto m = to) ms of
                                None \<Rightarrow> Some (Fail ''illegal'')
                              | Some mv \<Rightarrow> apply_move st st from to promotion p mv)))"
  using assms by (simp add: move_def Let_def split: option.splits)

lemma cand_of_simps: "mto (cand_of f r m) = sq (pf m) (pr m)" "mep (cand_of f r m) = pep m"
  "mcaptured (cand_of f r m) = None" "mcastle (cand_of f r m) = pcastle m" "mfrom (cand_of f r m) = sq f r"
  by (simp_all add: cand_of_def)

lemma push_ok_target: "push_ok p f r m \<Longrightarrow> sqToFR (sq (pf m) (pr m)) = (pf m, pr m)"
  by (auto simp: push_ok_def on_board_def intro: sqToFR_sq)

text \<open>What a successful move did.\<close>

lemma move_Ok_D:
  assumes wf: "wf_board (board st)" "wf_ep (ep st)"
    and mv: "move st from to promotion = Some (Ok s' fen info)"
  shows "\<exists>af ar bf br p m mv b5.
           sqToFR from = (af, ar) \<and> sqToFR to = (bf, br) \<and> at (board st) ar af = Some (Some p)
         \<and> (if isWhitePiece p then ''w'' else ''b'') = turn st
         \<and> push_ok p af ar m \<and> pf m = bf \<and> pr m = br \<and> mep mv = pep m \<and> mcaptured mv = None
         \<and> s' = next_state st b5 p af ar bf br mv \<and> shape b5
         \<and> cells_after (board st) b5 p promotion (mep mv) af ar bf br
         \<and> boardToFEN s' = Some fen \<and> i_from info = from \<and> i_to info = to \<and> i_piece info = p
         \<and> i_captured info = None"
proof -
  have sh: "shape (board st)" using wf(1) by (rule wf_board_shape)
  obtain af ar where a: "sqToFR from = (af, ar)" by (cases "sqToFR from")
  obtain bf br where b: "sqToFR to = (bf, br)" by (cases "sqToFR to")
  note u = move_unfold[OF a, of st to promotion]
  from mv u obtain p where p: "at (board st) ar af = Some (Some p)"
    by (auto split: option.splits)
  from at_piece_file[OF sh p] have r: "0 \<le> ar" "ar < 8" by auto
  from mv u p have t: "\<not> ((isWhitePiece p \<and> turn st \<noteq> ''w'') \<or> (\<not> isWhitePiece p \<and> turn st \<noteq> ''b''))"
    by (auto split: if_splits)
  from movesFrom_ok[OF wf a r] obtain ms where
    ms: "movesFrom st from = Some ms"
        "\<forall>mv \<in> set ms. \<exists>p m. at (board st) ar af = Some (Some p) \<and> (if isWhitePiece p then ''w'' else ''b'') = turn st
                 \<and> push_ok p af ar m \<and> mv = cand_of af ar m" by blast
  from mv u p t ms(1) obtain c where c: "find (\<lambda>m. mto m = to) ms = Some c"
    "apply_move st st from to promotion p c = Some (Ok s' fen info)"
    by (auto split: option.splits)
  from c(1) have cin: "c \<in> set ms" "mto c = to" by (auto simp: find_Some_iff)
  with ms(2) p obtain m where m: "push_ok p af ar m" "c = cand_of af ar m"
      "(if isWhitePiece p then ''w'' else ''b'') = turn st" by fastforce
  have "sqToFR to = (pf m, pr m)" using cin(2) push_ok_target[OF m(1)] by (simp add: m(2) cand_of_simps)
  with b have bm: "pf m = bf" "pr m = br" by auto
  have cm: "mep c = pep m" "mcaptured c = None" using m(2) by (simp_all add: cand_of_simps)
  from apply_move_ok[OF sh a b p m(1) bm cm(1), of promotion] c(2) cm(2)
  obtain b5 where "s' = next_state st b5 p af ar bf br c" "shape b5"
     "cells_after (board st) b5 p promotion (mep c) af ar bf br" "boardToFEN s' = Some fen"
     "i_from info = from" "i_to info = to" "i_piece info = p" "i_captured info = None"
    by auto
  with a b p m(1,3) bm cm show ?thesis by blast
qed

text \<open>No call with a square on the board as origin raises.\<close>

lemma move_total:
  assumes wf: "wf_board (board st)" "wf_ep (ep st)"
    and a: "sqToFR from = (af, ar)" and r: "0 \<le> ar" "ar < 8"
  shows "\<exists>res. move st from to promotion = Some res"
proof -
  have sh: "shape (board st)" using wf(1) by (rule wf_board_shape)
  obtain bf br where b: "sqToFR to = (bf, br)" by (cases "sqToFR to")
  note u = move_unfold[OF a, of st to promotion]
  obtain po where po: "at (board st) ar af = Some po" using at_shape[OF sh r] by blast
  from movesFrom_ok[OF wf a r] obtain ms where
    ms: "movesFrom st from = Some ms"
        "\<forall>mv \<in> set ms. \<exists>p m. at (board st) ar af = Some (Some p) \<and> (if isWhitePiece p then ''w'' else ''b'') = turn st
                 \<and> push_ok p af ar m \<and> mv = cand_of af ar m" by blast
  show ?thesis
  proof (cases po)
    case None
    then show ?thesis using u po by simp
  next
    case (Some p)
    with po have p: "at (board st) ar af = Some (Some p)" by simp
    show ?thesis
    proof (cases "find (\<lambda>m. mto m = to) ms")
      case None
      then show ?thesis using u p ms(1) by simp
    next
      case (Some c)
      then have cin: "c \<in> set ms" "mto c = to" by (auto simp: find_Some_iff)
      with ms(2) p obtain m where m: "push_ok p af ar m" "c = cand_of af ar m" by fastforce
      have "sqToFR to = (pf m, pr m)" using cin(2) push_ok_target[OF m(1)] by (simp add: m(2) cand_of_simps)
      with b have bm: "pf m = bf" "pr m = br" by auto
      have cm: "mep c = pep m" using m(2) by (simp add: cand_of_simps)
      from apply_move_ok[OF sh a b p m(1) bm cm, of promotion]
      obtain res where "apply_move st st from to promotion p c = Some res" by blast
      then show ?thesis using u p ms(1) Some by simp
    qed
  qed
qed

text \<open>A candidate of \<open>movesFrom\<close> is accepted.\<close>

lemma move_candidate:
  assumes wf: "wf_board (board st)" "wf_ep (ep st)"
    and ms: "movesFrom st from = Some ms" and c: "c \<in> set ms"
  shows "\<exists>s' fen info. move st from (mto c) promotion = Some (Ok s' fen info)"
proof -
  have sh: "shape (board st)" using wf(1) by (rule wf_board_shape)
  obtain af ar where a: "sqToFR from = (af, ar)" by (cases "sqToFR from")
  obtain bf br where b: "sqToFR (mto c) = (bf, br)" by (cases "sqToFR (mto c)")
  have "at (board st) ar af \<noteq> None" using ms a by (auto simp: movesFrom_def split: Option.bind_splits)
  then have r: "0 \<le> ar" "ar < 8" using at_None_iff[OF sh, of ar af] by auto
  from movesFrom_ok[OF wf a r] ms have
    all: "\<forall>mv \<in> set ms. \<exists>p m. at (board st) ar af = Some (Some p) \<and> (if isWhitePiece p then ''w'' else ''b'') = turn st
                 \<and> push_ok p af ar m \<and> mv = cand_of af ar m" by auto
  with c obtain p where p: "at (board st) ar af = Some (Some p)" "(if isWhitePiece p then ''w'' else ''b'') = turn st"
    by blast
  from c have "find (\<lambda>m. mto m = mto c) ms \<noteq> None" by (auto simp: find_None_iff)
  then obtain c' where c': "find (\<lambda>m. mto m = mto c) ms = Some c'" by blast
  then have cin: "c' \<in> set ms" "mto c' = mto c" by (auto simp: find_Some_iff)
  with all p obtain m where m: "push_ok p af ar m" "c' = cand_of af ar m" by fastforce
  have "sqToFR (mto c) = (pf m, pr m)" using cin(2) push_ok_target[OF m(1)] by (simp add: m(2) cand_of_simps)
  with b have bm: "pf m = bf" "pr m = br" by auto
  have cm: "mep c' = pep m" using m(2) by (simp add: cand_of_simps)
  from apply_move_ok[OF sh a b p(1) m(1) bm cm, of promotion]
  obtain s' fen info where "apply_move st st from (mto c) promotion p c' = Some (Ok s' fen info)" by blast
  moreover have "\<not> ((isWhitePiece p \<and> turn st \<noteq> ''w'') \<or> (\<not> isWhitePiece p \<and> turn st \<noteq> ''b''))"
    using p(2) by (auto split: if_splits)
  ultimately show ?thesis using move_unfold[OF a, of st "mto c" promotion] p(1) ms c' by simp
qed

section \<open>Moves keep positions well formed\<close>

lemma wf_boardI: "shape b \<Longrightarrow> (\<And>r f c. 0 \<le> r \<Longrightarrow> r < 8 \<Longrightarrow> 0 \<le> f \<Longrightarrow> f < 8 \<Longrightarrow> at b r f = Some c \<Longrightarrow> wf_cell r c) \<Longrightarrow> wf_board b"
  by (auto simp: wf_board_def cells_ok_def)

lemma wf_boardD: "wf_board b \<Longrightarrow> 0 \<le> r \<Longrightarrow> r < 8 \<Longrightarrow> 0 \<le> f \<Longrightarrow> f < 8 \<Longrightarrow> at b r f = Some c \<Longrightarrow> wf_cell r c"
  by (auto simp: wf_board_def cells_ok_def)

lemma wf_cell_None: "wf_cell r None"
  by (simp add: wf_cell_def)

lemma board_after_wf:
  assumes wf: "wf_board b" and pr: "promotion \<in> set PROMOTIONS"
    and p: "at b ar af = Some (Some p)" and m: "push_ok p af ar m" "pf m = bf" "pr m = br"
    and sh: "shape b5" and cells: "cells_after b b5 p promotion isep af ar bf br"
  shows "wf_board b5"
proof -
  have shb: "shape b" using wf by (rule wf_board_shape)
  from at_piece_file[OF shb p] have ain: "0 \<le> af" "af < 8" "0 \<le> ar" "ar < 8" by auto
  from m have bin: "0 \<le> bf" "bf < 8" "0 \<le> br" "br < 8" by (auto simp: push_ok_def on_board_def)
  have wp: "wf_cell ar (Some p)" using wf_boardD[OF wf ain(3,4) ain(1,2) p] .
  have wpb: "\<not> promotes p br \<Longrightarrow> wf_cell br (Some p)"
    using wp bin by (auto simp: promotes_def wf_cell_def toLowerCase_eq_p)
  from cells obtain b3 b4 where
    b3: "\<And>r' f'. at b3 r' f' =
           (if r' = ar \<and> f' = af then Some None
            else if r' = br \<and> f' = bf then Some (Some p)
            else if isep \<and> r' = br - dir_of (isWhitePiece p) \<and> f' = bf then Some None
            else at b r' f')"
    and b4: "\<And>r' f'. at b4 r' f' =
           (if promotes p br \<and> r' = br \<and> f' = bf then Some (Some (promoted (isWhitePiece p) promotion))
            else at b3 r' f')"
    and b5: "\<And>r' f'. at b5 r' f' =
           (if castles p af bf \<and> bf = 6
            then (if r' = ar \<and> f' = 7 then Some None
                  else if r' = ar \<and> f' = 5 then at b4 ar 7 else at b4 r' f')
            else if castles p af bf \<and> bf = 2
            then (if r' = ar \<and> f' = 0 then Some None
                  else if r' = ar \<and> f' = 3 then at b4 ar 0 else at b4 r' f')
            else at b4 r' f')"
    unfolding cells_after_def by blast
  have w3: "wf_cell r c \<or> (promotes p br \<and> r = br \<and> f = bf)"
    if "0 \<le> r" "r < 8" "0 \<le> f" "f < 8" "at b3 r f = Some c" for r f c
    using that wpb wf_boardD[OF wf that(1-4)] unfolding b3 by (auto simp: wf_cell_None split: if_splits)
  have w4: "wf_cell r c" if "0 \<le> r" "r < 8" "0 \<le> f" "f < 8" "at b4 r f = Some c" for r f c
    using that w3[OF that(1-4)] promoted_wf[OF pr] unfolding b4 by (auto split: if_splits)
  have w5: "wf_cell r c" if "0 \<le> r" "r < 8" "0 \<le> f" "f < 8" "at b5 r f = Some c" for r f c
    using that w4[OF that(1-4)] w4[OF ain(3,4), of 7] w4[OF ain(3,4), of 0] unfolding b5
    by (auto simp: wf_cell_None split: if_splits)
  show ?thesis using sh w5 by (rule wf_boardI)
qed

lemma double_push_row:
  assumes "push_ok p af ar m" "pr m = br" "toLowerCase p = CHR ''p''" "\<bar>br - ar\<bar> = 2" "0 \<le> ar" "ar < 8"
  shows "br = ar + 2 * dir_of (isWhitePiece p) \<and> pf m = af \<and> 0 \<le> ar + dir_of (isWhitePiece p) \<and> ar + dir_of (isWhitePiece p) < 8"
  using assms by (auto simp: push_ok_def on_board_def dir_of_def split: if_splits)

lemma next_state_wf:
  assumes wf: "wf_state st" and pr: "promotion \<in> set PROMOTIONS"
    and p: "at (board st) ar af = Some (Some p)" and m: "push_ok p af ar m" "pf m = bf" "pr m = br"
    and sh: "shape b5" and cells: "cells_after (board st) b5 p promotion isep af ar bf br"
  shows "wf_state (next_state st b5 p af ar bf br mv)"
proof -
  have wb: "wf_board (board st)" using wf by (simp add: wf_state_def)
  from at_piece_file[OF wf_board_shape[OF wb] p] have ain: "0 \<le> af" "af < 8" "0 \<le> ar" "ar < 8" by auto
  have 1: "wf_board b5" using board_after_wf[OF wb pr p m sh cells] .
  have 2: "wf_castling (if castles p af bf then drop_rights (isWhitePiece p) (castling st) else castling st)"
    using wf by (simp add: wf_state_def wf_castling_drop)
  have 3: "wf_ep (if toLowerCase p = CHR ''p'' \<and> \<bar>br - ar\<bar> = 2
             then sq af (ar + dir_of (isWhitePiece p)) else ''-'')"
    using double_push_row[OF m(1,3) _ _ ain(3,4)] ain by (auto simp: wf_ep_def)
  show ?thesis using wf 1 2 3
    by (auto simp: wf_state_def next_state_def num_or_def)
qed

lemma move_wf:
  assumes wf: "wf_state st" and pr: "promotion \<in> set PROMOTIONS"
    and mv: "move st from to promotion = Some (Ok s' fen info)"
  shows "wf_state s'"
proof -
  have w: "wf_board (board st)" "wf_ep (ep st)" using wf by (simp_all add: wf_state_def)
  from move_Ok_D[OF w mv] obtain af ar bf br p m mv b5 where
    d: "at (board st) ar af = Some (Some p)" "push_ok p af ar m" "pf m = bf" "pr m = br"
       "s' = next_state st b5 p af ar bf br mv" "shape b5"
       "cells_after (board st) b5 p promotion (mep mv) af ar bf br" by blast
  show ?thesis unfolding d(5) using next_state_wf[OF wf pr d(1-4) d(6,7)] .
qed

lemma initial_wf: "wf_state initial_state"
proof -
  have sh: "shape (board initial_state)" by (simp add: shape_def initial_state_def)
  have "wf_cell r c" if "0 \<le> r" "r < 8" "0 \<le> f" "f < 8" "at (board initial_state) r f = Some c" for r f c
    using int8_cases[OF that(1,2)] int8_cases[OF that(3,4)] that(5)
    by (auto simp: initial_state_def at_def nth_opt_def wf_cell_def PIECES_def)
  with sh have "wf_board (board initial_state)" by (rule wf_boardI)
  then show ?thesis by (simp add: wf_state_def) (simp add: initial_state_def wf_castling_def wf_ep_def)
qed

section \<open>Numbers and fields of the record\<close>

lemma nat10_cases: "(d::nat) < 10 \<Longrightarrow> d = 0 \<or> d = 1 \<or> d = 2 \<or> d = 3 \<or> d = 4 \<or> d = 5 \<or> d = 6 \<or> d = 7 \<or> d = 8 \<or> d = 9"
  by arith

lemma digit_char_props:
  assumes "d < 10"
  shows "is_digit (digit_char d)" "digit_val (digit_char d) = d" "\<not> is_ws (digit_char d)"
    "digit_char d \<noteq> CHR ''-''" "digit_char d \<noteq> CHR ''+''"
  using nat10_cases[OF assms]
  by (auto simp: is_digit_def digit_char_def digit_val_def DIGITS_def is_ws_def)

lemma digits_all: "\<forall>c \<in> set (digits n). is_digit c \<and> \<not> is_ws c"
proof (induction n rule: digits.induct)
  case (1 n)
  show ?case
  proof (cases "n < 10")
    case True
    then show ?thesis by (subst digits.simps) (simp add: digit_char_props)
  next
    case False
    then have "n mod 10 < 10" by simp
    with 1 False show ?thesis by (subst digits.simps) (auto simp: digit_char_props)
  qed
qed

lemma digits_nonempty: "digits n \<noteq> []"
  by (subst digits.simps) simp

lemma digits_value: "foldl (\<lambda>a c. 10 * a + digit_val c) 0 (digits n) = n"
proof (induction n rule: digits.induct)
  case (1 n)
  show ?case
  proof (cases "n < 10")
    case True
    then show ?thesis by (subst digits.simps) (simp add: digit_char_props)
  next
    case False
    then have "n mod 10 < 10" by simp
    with 1 False show ?thesis by (subst digits.simps) (simp add: digit_char_props)
  qed
qed

lemma digits_hd: "is_digit (hd (digits n))" "\<not> is_ws (hd (digits n))" "\<not> is_ws (last (digits n))"
  using digits_all[of n] digits_nonempty[of n] by (auto simp: hd_in_set last_in_set)

lemma is_digit_not_sign: "is_digit c \<Longrightarrow> c \<noteq> CHR ''-'' \<and> c \<noteq> CHR ''+''"
  by (auto simp: is_digit_def DIGITS_def)

lemma takeWhile_all: "\<forall>x \<in> set xs. P x \<Longrightarrow> takeWhile P xs = xs"
  by (induction xs) auto

lemma dropWhile_hd: "xs \<noteq> [] \<Longrightarrow> \<not> P (hd xs) \<Longrightarrow> dropWhile P xs = xs"
  by (cases xs) auto

lemma parseInt_String_of: "0 \<le> n \<Longrightarrow> parseInt (String_of n) = Num n"
proof -
  assume n: "0 \<le> n"
  let ?ds = "digits (nat n)"
  have 1: "dropWhile is_ws ?ds = ?ds" using digits_nonempty digits_hd(2) by (rule dropWhile_hd)
  have 2: "hd ?ds \<noteq> CHR ''-''" "hd ?ds \<noteq> CHR ''+''" using is_digit_not_sign[OF digits_hd(1)] by auto
  have 3: "takeWhile is_digit ?ds = ?ds" using digits_all by (intro takeWhile_all) blast
  show ?thesis using n digits_nonempty[of "nat n"]
    by (simp add: parseInt_def String_of_def Let_def 1 2 3 digits_value)
qed

lemma String_of_props: "0 \<le> n \<Longrightarrow> String_of n \<noteq> [] \<and> (\<forall>c \<in> set (String_of n). \<not> is_ws c)"
  using digits_all digits_nonempty by (auto simp: String_of_def)

lemma trim_id: "s \<noteq> [] \<Longrightarrow> \<not> is_ws (hd s) \<Longrightarrow> \<not> is_ws (last s) \<Longrightarrow> trim s = s"
  by (simp add: trim_def dropWhile_hd hd_rev)

lemma split_ws_single: "\<forall>c \<in> set a. \<not> is_ws c \<Longrightarrow> split_ws a = [a]"
  by (induction a) auto

lemma split_ws_field:
  "\<forall>c \<in> set a. \<not> is_ws c \<Longrightarrow> b \<noteq> [] \<Longrightarrow> \<not> is_ws (hd b) \<Longrightarrow> split_ws (a @ CHR '' '' # b) = a # split_ws b"
  by (induction a) (auto simp: is_ws_def)

lemma split_on_single: "d \<notin> set a \<Longrightarrow> split_on d a = [a]"
  by (induction a) auto

lemma split_on_field: "d \<notin> set a \<Longrightarrow> split_on d (a @ d # b) = a # split_on d b"
  by (induction a) auto

lemma split_on_join:
  "rows \<noteq> [] \<Longrightarrow> \<forall>rw \<in> set rows. d \<notin> set rw \<Longrightarrow> split_on d (join [d] rows) = rows"
proof (induction "[d]" rows rule: join.induct)
  case 1
  then show ?case by simp
next
  case (2 x)
  then show ?case by (simp add: split_on_single)
next
  case (3 x y ys)
  then show ?case by (simp add: split_on_field)
qed

section \<open>One rank, printed and parsed\<close>

lemma enc_row_acc: "enc_row ps s e = s @ enc_row ps [] e"
proof (induction ps arbitrary: s e)
  case Nil
  then show ?case by simp
next
  case (Cons c ps)
  show ?case
  proof (cases c)
    case None
    then show ?thesis using Cons[of s "e + 1"] by simp
  next
    case (Some p)
    let ?B = "(if e \<noteq> 0 then String_of (int e) else []) @ [p]"
    have "enc_row (Some p # ps) s e = enc_row ps (s @ ?B) 0" by simp
    also have "\<dots> = (s @ ?B) @ enc_row ps [] 0" by (rule Cons)
    also have "\<dots> = s @ enc_row ps ?B 0" using Cons[of ?B 0] by simp
    also have "\<dots> = s @ enc_row (Some p # ps) [] e" by simp
    finally show ?thesis using Some by simp
  qed
qed

lemma String_of_digit: "e < 10 \<Longrightarrow> String_of (int e) = [digit_char e]"
  by (simp add: String_of_def digits.simps)

lemma run_digit: "1 \<le> e \<Longrightarrow> e \<le> 8 \<Longrightarrow> digit_char e \<in> set ''12345678'' \<and> digit_val (digit_char e) = e
   \<and> \<not> is_ws (digit_char e) \<and> digit_char e \<noteq> CHR ''/''"
proof -
  assume "1 \<le> e" "e \<le> 8"
  then have "e = 1 \<or> e = 2 \<or> e = 3 \<or> e = 4 \<or> e = 5 \<or> e = 6 \<or> e = 7 \<or> e = 8" by arith
  then show ?thesis by (auto simp: digit_char_def digit_val_def DIGITS_def is_ws_def)
qed

lemma piece_char: "p \<in> set PIECES \<Longrightarrow> p \<notin> set ''12345678'' \<and> \<not> is_ws p \<and> p \<noteq> CHR ''/''"
  by (auto simp: PIECES_def is_ws_def)

lemma replicate_split: "replicate (e + Suc n) x = replicate e x @ x # replicate n x"
  by (induction e) auto

lemma parse_enc_row:
  assumes "pieces_ok ps" "e + length ps \<le> 8"
  shows "parse_row (pre @ replicate (e + length ps + k) None) (length pre) (enc_row ps [] e)
         = pre @ replicate e None @ ps @ replicate k None"
  using assms
proof (induction ps arbitrary: pre e)
  case Nil
  show ?case
  proof (cases "e = 0")
    case True
    then show ?thesis by simp
  next
    case False
    with Nil have e: "1 \<le> e" "e \<le> 8" by auto
    have "enc_row [] [] e = [digit_char e]" using False e by (simp add: String_of_digit)
    moreover have "replicate (e + k) (None :: piece option) = replicate e None @ replicate k None"
      by (rule replicate_add)
    ultimately show ?thesis using run_digit[OF e] by simp
  qed
next
  case (Cons c ps)
  show ?case
  proof (cases c)
    case None
    have ok: "pieces_ok ps" using Cons.prems(1) by (auto simp: pieces_ok_def)
    have le: "Suc e + length ps \<le> 8" using Cons.prems(2) by simp
    have "enc_row (c # ps) [] e = enc_row ps [] (Suc e)" using None by simp
    moreover have "e + length (c # ps) + k = Suc e + length ps + k" by simp
    moreover have "replicate (Suc e) None @ ps = replicate e None @ c # ps"
      using None by (simp add: replicate_app_Cons_same)
    ultimately show ?thesis using Cons.IH[OF ok le, of pre]
      by (metis append.assoc)
  next
    case (Some p)
    have ok: "pieces_ok ps" and pp: "p \<in> set PIECES" using Cons.prems(1) Some by (auto simp: pieces_ok_def)
    let ?pre' = "pre @ replicate e None @ [Some p]"
    let ?rw0 = "pre @ replicate (e + length (c # ps) + k) None"
    let ?rw1 = "?pre' @ replicate (0 + length ps + k) None"
    have enc: "enc_row (c # ps) [] e = (if e \<noteq> 0 then String_of (int e) else []) @ p # enc_row ps [] 0"
      using enc_row_acc[of ps "(if e \<noteq> 0 then [] @ String_of (int e) else []) @ [p]" 0] Some by simp
    have n: "e + length (c # ps) + k = e + Suc (length ps + k)" by simp
    have rw0: "?rw0 = (pre @ replicate e None) @ None # replicate (length ps + k) None"
      unfolding n replicate_split by simp
    have upd: "js_set ?rw0 (int (length pre + e)) (Some p) = ?rw1"
    proof -
      have "length pre + e < length ?rw0" by simp
      then have "js_set ?rw0 (int (length pre + e)) (Some p) = ?rw0[length pre + e := Some p]"
        by (simp only: js_set_def nat_int of_nat_less_iff of_nat_0_le_iff if_True if_False not_less)
           (simp add: not_less[symmetric])
      also have "\<dots> = (pre @ replicate e None) @ Some p # replicate (length ps + k) None"
        unfolding rw0
        using list_update_length[of "pre @ replicate e None" None "replicate (length ps + k) None" "Some p"]
        by simp
      finally show ?thesis by simp
    qed
    have step: "parse_row ?rw0 (length pre + e) (p # enc_row ps [] 0)
          = parse_row ?rw1 (length ?pre') (enc_row ps [] 0)"
    proof -
      have "parse_row ?rw0 (length pre + e) (p # enc_row ps [] 0)
            = parse_row (js_set ?rw0 (int (length pre + e)) (Some p)) (length pre + e + 1) (enc_row ps [] 0)"
        using piece_char[OF pp] by (simp only: parse_row.simps if_False)
      then show ?thesis unfolding upd by simp
    qed
    have ih: "parse_row ?rw1 (length ?pre') (enc_row ps [] 0)
          = ?pre' @ replicate 0 None @ ps @ replicate k None"
      using Cons.prems(2) by (intro Cons.IH[OF ok]) simp
    have fin: "?pre' @ replicate 0 None @ ps @ replicate k None = pre @ replicate e None @ (c # ps) @ replicate k None"
      using Some by simp
    show ?thesis
    proof (cases "e = 0")
      case True
      have "enc_row (c # ps) [] e = p # enc_row ps [] 0" using enc True by simp
      then show ?thesis using step ih fin True by simp
    next
      case False
      with Cons.prems(2) have e: "1 \<le> e" "e \<le> 8" by auto
      have "enc_row (c # ps) [] e = digit_char e # p # enc_row ps [] 0"
        using enc False e by (simp add: String_of_digit)
      then have "parse_row ?rw0 (length pre) (enc_row (c # ps) [] e)
            = parse_row ?rw0 (length pre + e) (p # enc_row ps [] 0)"
        using run_digit[OF e] by (simp only: parse_row.simps if_True)
      then show ?thesis using step ih fin by simp
    qed
  qed
qed

lemma parse_enc_row8:
  assumes "pieces_ok ps" "length ps = 8"
  shows "parse_row (replicate 8 None) 0 (enc_row ps [] 0) = ps"
  using parse_enc_row[OF assms(1), of 0 "[]" 0] assms(2) by simp

lemma run_chars:
  assumes "e \<le> 8"
  shows "\<forall>c \<in> set (if e \<noteq> 0 then String_of (int e) else []). \<not> is_ws c \<and> c \<noteq> CHR ''/''"
proof (cases "e = 0")
  case True
  then show ?thesis by simp
next
  case False
  with assms have e: "1 \<le> e" "e \<le> 8" by auto
  then have "String_of (int e) = [digit_char e]" by (simp add: String_of_digit)
  then show ?thesis using run_digit[OF e] False by simp
qed

lemma enc_row_chars:
  assumes "pieces_ok ps" "e + length ps \<le> 8"
  shows "\<forall>c \<in> set (enc_row ps [] e). \<not> is_ws c \<and> c \<noteq> CHR ''/''"
  using assms
proof (induction ps arbitrary: e)
  case Nil
  then have "e \<le> 8" by simp
  from run_chars[OF this] show ?case by simp
next
  case (Cons c ps)
  have ok: "pieces_ok ps" using Cons.prems(1) by (auto simp: pieces_ok_def)
  show ?case
  proof (cases c)
    case None
    then show ?thesis using Cons.IH[OF ok, of "Suc e"] Cons.prems(2) by simp
  next
    case (Some p)
    then have pp: "p \<in> set PIECES" using Cons.prems(1) by (auto simp: pieces_ok_def)
    have enc: "enc_row (c # ps) [] e = (if e \<noteq> 0 then String_of (int e) else []) @ p # enc_row ps [] 0"
      using enc_row_acc[of ps "(if e \<noteq> 0 then [] @ String_of (int e) else []) @ [p]" 0] Some by simp
    have 1: "\<forall>c \<in> set (if e \<noteq> 0 then String_of (int e) else []). \<not> is_ws c \<and> c \<noteq> CHR ''/''"
      using Cons.prems(2) by (intro run_chars) simp
    have 2: "\<forall>c \<in> set (enc_row ps [] 0). \<not> is_ws c \<and> c \<noteq> CHR ''/''"
      using Cons.prems(2) by (intro Cons.IH[OF ok]) simp
    show ?thesis unfolding enc set_append set_simps using 1 2 piece_char[OF pp] by blast
  qed
qed

lemma enc_row_nonempty: "e + length ps > 0 \<Longrightarrow> enc_row ps [] e \<noteq> []"
proof (induction ps arbitrary: e)
  case Nil
  then show ?case by (simp add: String_of_def digits_nonempty)
next
  case (Cons c ps)
  show ?case
  proof (cases c)
    case None
    then show ?thesis using Cons.IH[of "Suc e"] by simp
  next
    case (Some p)
    have "enc_row (Some p # ps) [] e = (if e \<noteq> 0 then String_of (int e) else []) @ p # enc_row ps [] 0"
      using enc_row_acc[of ps "(if e \<noteq> 0 then [] @ String_of (int e) else []) @ [p]" 0] by simp
    then show ?thesis using Some by simp
  qed
qed

section \<open>The record, printed and parsed\<close>

lemma rank_cells_id: "length rw = 8 \<Longrightarrow> rank_cells rw = rw"
proof -
  assume l: "length rw = 8"
  have "rank_cells rw = map ((!) rw) [0..<length rw]"
    unfolding rank_cells_def l by (rule map_cong) (auto simp: nth_opt_def l split: option.splits)
  then show ?thesis by (simp add: map_nth)
qed

lemma wf_row:
  assumes wf: "wf_board b" and r: "r < 8"
  shows "length (b ! r) = 8" "pieces_ok (b ! r)"
proof -
  have sh: "shape b" using wf by (rule wf_board_shape)
  then show l: "length (b ! r) = 8" using r by (simp add: shape_def)
  show "pieces_ok (b ! r)"
    unfolding pieces_ok_def
  proof (intro allI impI)
    fix p assume "Some p \<in> set (b ! r)"
    then obtain f where f: "f < 8" "b ! r ! f = Some p" using l by (auto simp: in_set_conv_nth)
    then have "at b (int r) (int f) = Some (Some p)"
      using sh r l by (simp add: at_def nth_opt_def shape_def)
    from wf_boardD[OF wf _ _ _ _ this] r f show "p \<in> set PIECES" by (simp add: wf_cell_def)
  qed
qed

lemma join_chars: "c \<in> set (join d rows) \<Longrightarrow> c \<in> set d \<or> (\<exists>rw \<in> set rows. c \<in> set rw)"
  by (induction d rows rule: join.induct) auto

lemma join_hd: "x \<noteq> [] \<Longrightarrow> join d (x # xs) \<noteq> [] \<and> hd (join d (x # xs)) = hd x"
  by (cases xs) auto

lemma enc_rows_props:
  assumes wf: "wf_board b"
  shows "length (enc_rows b) = 8"
    and "\<forall>rw \<in> set (enc_rows b). rw \<noteq> [] \<and> (\<forall>c \<in> set rw. \<not> is_ws c \<and> c \<noteq> CHR ''/'')"
    and "r < 8 \<Longrightarrow> parse_row (replicate 8 None) 0 (enc_rows b ! (7 - r)) = b ! r"
proof -
  show "length (enc_rows b) = 8" by (simp add: enc_rows_def)
  show "\<forall>rw \<in> set (enc_rows b). rw \<noteq> [] \<and> (\<forall>c \<in> set rw. \<not> is_ws c \<and> c \<noteq> CHR ''/'')"
  proof
    fix rw assume "rw \<in> set (enc_rows b)"
    then obtain r where r: "r < 8" "rw = enc_row (b ! r) [] 0" by (auto simp: enc_rows_def)
    from wf_row[OF wf r(1)] have l: "length (b ! r) = 8" and ok: "pieces_ok (b ! r)" by auto
    have "rw \<noteq> []" unfolding r(2) by (rule enc_row_nonempty) (simp add: l)
    moreover have "\<forall>c \<in> set rw. \<not> is_ws c \<and> c \<noteq> CHR ''/''"
      unfolding r(2) by (rule enc_row_chars[OF ok]) (simp add: l)
    ultimately show "rw \<noteq> [] \<and> (\<forall>c \<in> set rw. \<not> is_ws c \<and> c \<noteq> CHR ''/'')" by blast
  qed
  show "parse_row (replicate 8 None) 0 (enc_rows b ! (7 - r)) = b ! r" if r: "r < 8"
  proof -
    have rv: "rev [0..<8] ! (7 - r) = r" using r by (simp add: rev_nth)
    have "enc_rows b ! (7 - r) = enc_row (b ! (rev [0..<8] ! (7 - r))) [] 0"
      using r unfolding enc_rows_def by (intro nth_map) simp
    then have "enc_rows b ! (7 - r) = enc_row (b ! r) [] 0"
      by (simp only: rv)
    then show ?thesis using parse_enc_row8[OF wf_row(2)[OF wf r] wf_row(1)[OF wf r]] by simp
  qed
qed

lemma boardToFEN_wf:
  assumes wf: "wf_board (board st)"
  shows "boardToFEN st =
     Some (join ''/'' (enc_rows (board st)) @ '' '' @ turn st @ '' '' @ (if castling st = [] then ''-'' else castling st)
           @ '' '' @ (if ep st = [] then ''-'' else ep st)
           @ '' '' @ String_of (num_or (halfmove st) 0)
           @ '' '' @ String_of (num_or (fullmove st) 1))"
proof -
  have sh: "shape (board st)" using wf by (rule wf_board_shape)
  have "those (map (\<lambda>r. map_option (\<lambda>rw. enc_row (rank_cells rw) [] 0) (nth_opt (board st) (int r))) (rev [0..<8]))
        = Some (map (\<lambda>r. the (map_option (\<lambda>rw. enc_row (rank_cells rw) [] 0) (nth_opt (board st) (int r)))) (rev [0..<8]))"
    by (rule those_map_Some) (simp add: nth_opt_shape[OF sh])
  also have "map (\<lambda>r. the (map_option (\<lambda>rw. enc_row (rank_cells rw) [] 0) (nth_opt (board st) (int r)))) (rev [0..<8])
        = enc_rows (board st)"
    unfolding enc_rows_def
    by (rule map_cong) (auto simp: nth_opt_shape[OF sh] rank_cells_id wf_row(1)[OF wf])
  finally show ?thesis by (simp add: boardToFEN_def)
qed

lemma parse_board_rows:
  assumes wf: "wf_board b"
  shows "those (map (\<lambda>r. map_option (parse_row (replicate 8 None) 0) (nth_opt (enc_rows b) (7 - int r))) [0..<8]) = Some b"
proof -
  have len: "length b = 8" using wf_board_shape[OF wf] by (simp add: shape_def)
  have cell: "map_option (parse_row (replicate 8 None) 0) (nth_opt (enc_rows b) (7 - int r)) = Some (b ! r)"
    if "r < 8" for r
  proof -
    have "nat (7 - int r) = 7 - r" by simp
    then have "nth_opt (enc_rows b) (7 - int r) = Some (enc_rows b ! (7 - r))"
      using that enc_rows_props(1)[OF wf] by (simp add: nth_opt_def)
    then show ?thesis using enc_rows_props(3)[OF wf that] by simp
  qed
  have "those (map (\<lambda>r. map_option (parse_row (replicate 8 None) 0) (nth_opt (enc_rows b) (7 - int r))) [0..<8])
        = Some (map (\<lambda>r. the (map_option (parse_row (replicate 8 None) 0) (nth_opt (enc_rows b) (7 - int r)))) [0..<8])"
    by (rule those_map_Some) (simp add: cell)
  also have "map (\<lambda>r. the (map_option (parse_row (replicate 8 None) 0) (nth_opt (enc_rows b) (7 - int r)))) [0..<8]
        = map ((!) b) [0..<length b]"
    unfolding len by (rule map_cong) (auto simp: cell)
  finally show ?thesis by (simp add: map_nth)
qed

lemma split_ws_join:
  "xs \<noteq> [] \<Longrightarrow> \<forall>x \<in> set xs. x \<noteq> [] \<and> (\<forall>c \<in> set x. \<not> is_ws c) \<Longrightarrow> split_ws (join '' '' xs) = xs"
proof (induction "'' ''" xs rule: join.induct)
  case 1
  then show ?case by simp
next
  case (2 x)
  then show ?case by (simp add: split_ws_single)
next
  case (3 x y ys)
  have "join '' '' (y # ys) \<noteq> []" "hd (join '' '' (y # ys)) = hd y"
    using join_hd[of y "'' ''" ys] 3(3) by auto
  moreover have "\<not> is_ws (hd y)" using 3(3) by (simp add: hd_in_set)
  ultimately show ?case using 3 by (simp add: split_ws_field)
qed

lemma join_last: "xs \<noteq> [] \<Longrightarrow> last xs \<noteq> [] \<Longrightarrow> join d xs \<noteq> [] \<and> last (join d xs) = last (last xs)"
  by (induction d xs rule: join.induct) auto

lemma trim_join:
  assumes "xs \<noteq> []" "\<forall>x \<in> set xs. x \<noteq> [] \<and> (\<forall>c \<in> set x. \<not> is_ws c)"
  shows "trim (join '' '' xs) = join '' '' xs"
proof -
  obtain x ys where xs: "xs = x # ys" using assms(1) by (cases xs) auto
  have h: "join '' '' xs \<noteq> []" "hd (join '' '' xs) = hd x"
    using join_hd[of x "'' ''" ys] assms(2) xs by auto
  have "\<not> is_ws (hd x)" using assms(2) xs by (simp add: hd_in_set)
  moreover have "last (join '' '' xs) = last (last xs)"
    using assms join_last[of xs "'' ''"] by (auto simp: last_in_set)
  moreover have "\<not> is_ws (last (last xs))" using assms by (metis last_in_set)
  ultimately show ?thesis using h by (intro trim_id) auto
qed

lemma label_chars: "0 \<le> f \<Longrightarrow> f < 8 \<Longrightarrow> 0 \<le> r \<Longrightarrow> r < 8 \<Longrightarrow> sq f r \<noteq> [] \<and> (\<forall>c \<in> set (sq f r). \<not> is_ws c)"
  using int8_cases[of f] int8_cases[of r]
  by (auto simp: sq_on_board FILES_def RANKS_def is_ws_def)

lemma fen_roundtrip:
  assumes wf: "wf_state st"
  shows "\<exists>fen. boardToFEN st = Some fen \<and> parseFEN fen = Some (canonical st)"
proof -
  have wb: "wf_board (board st)" using wf by (simp add: wf_state_def)
  obtain h n where hn: "halfmove st = Num h" "0 \<le> h" "fullmove st = Num n" "1 \<le> n"
    using wf by (auto simp: wf_state_def)
  let ?F = "join ''/'' (enc_rows (board st))"
  let ?C = "(if castling st = [] then ''-'' else castling st)"
  let ?xs = "[?F, turn st, ?C, ep st, String_of h, String_of n]"
  have epne: "ep st \<noteq> [] \<and> (\<forall>c \<in> set (ep st). \<not> is_ws c)"
  proof (cases "ep st = ''-''")
    case True
    then show ?thesis by (simp add: is_ws_def)
  next
    case False
    then obtain f r where "0 \<le> f" "f < 8" "0 \<le> r" "r < 8" "ep st = sq f r"
      using wf by (auto simp: wf_state_def wf_ep_def)
    then show ?thesis using label_chars[of f r] by simp
  qed
  have F: "?F \<noteq> [] \<and> (\<forall>c \<in> set ?F. \<not> is_ws c)"
  proof -
    obtain x ys where xs: "enc_rows (board st) = x # ys"
      using enc_rows_props(1)[OF wb] by (cases "enc_rows (board st)") auto
    then have "x \<noteq> []" using enc_rows_props(2)[OF wb] by auto
    then have "?F \<noteq> []" using join_hd[of x "''/''" ys] xs by simp
    moreover have "\<not> is_ws c" if "c \<in> set ?F" for c
      using join_chars[OF that] enc_rows_props(2)[OF wb] by (auto simp: is_ws_def)
    ultimately show ?thesis by blast
  qed
  have C: "?C \<noteq> [] \<and> (\<forall>c \<in> set ?C. \<not> is_ws c)"
    using wf by (auto simp: wf_state_def wf_castling_def is_ws_def)
  have T: "turn st \<noteq> [] \<and> (\<forall>c \<in> set (turn st). \<not> is_ws c)"
    using wf by (auto simp: wf_state_def is_ws_def)
  have all: "\<forall>x \<in> set ?xs. x \<noteq> [] \<and> (\<forall>c \<in> set x. \<not> is_ws c)"
    using F C T epne String_of_props[OF hn(2)] String_of_props[of n] hn(4) by simp
  have fen: "boardToFEN st = Some (join '' '' ?xs)"
    using boardToFEN_wf[OF wb] hn epne by (simp add: num_or_def)
  have parts: "split_ws (trim (join '' '' ?xs)) = ?xs"
    using trim_join[OF _ all] split_ws_join[OF _ all] by simp
  have rows: "split_on CHR ''/'' ?F = enc_rows (board st)"
  proof (rule split_on_join)
    show "enc_rows (board st) \<noteq> []" using enc_rows_props(1)[OF wb] by auto
    show "\<forall>rw\<in>set (enc_rows (board st)). CHR ''/'' \<notin> set rw"
      using enc_rows_props(2)[OF wb] by blast
  qed
  have od: "or_default (Some x) d = x" if "x \<noteq> []" for x d
    using that by (simp add: or_default_def)
  have nths: "?xs ! 0 = ?F" "nth_opt ?xs 1 = Some (turn st)" "nth_opt ?xs 2 = Some ?C"
    "nth_opt ?xs 3 = Some (ep st)" "nth_opt ?xs 4 = Some (String_of h)" "nth_opt ?xs 5 = Some (String_of n)"
    by (simp_all add: nth_opt_def)
  have n0: "0 \<le> n" using hn(4) by simp
  have fields: "or_default (nth_opt ?xs 1) ''w'' = turn st" "or_default (nth_opt ?xs 2) ''-'' = ?C"
    "or_default (nth_opt ?xs 3) ''-'' = ep st"
    "parseInt (or_default (nth_opt ?xs 4) ''0'') = Num h"
    "parseInt (or_default (nth_opt ?xs 5) ''1'') = Num n"
    unfolding nths
    using od[of "turn st"] od[of ?C] od[of "ep st"] od[of "String_of h"] od[of "String_of n"]
      T C epne String_of_props[OF hn(2)] String_of_props[OF n0]
      parseInt_String_of[OF hn(2)] parseInt_String_of[OF n0]
    by presburger+
  have "parseFEN (join '' '' ?xs) = Some \<lparr> board = board st, turn = turn st, castling = ?C, ep = ep st,
            halfmove = Num h, fullmove = Num n \<rparr>"
    unfolding parseFEN_def parts Let_def nths(1) rows fields parse_board_rows[OF wb]
    by (simp only: Option.bind.simps)
  moreover have "\<lparr> board = board st, turn = turn st, castling = ?C, ep = ep st,
            halfmove = Num h, fullmove = Num n \<rparr> = canonical st"
    using hn by (simp add: canonical_def)
  ultimately have "parseFEN (join '' '' ?xs) = Some (canonical st)" by simp
  with fen show ?thesis by blast
qed

lemma canonical_wf: "wf_state st \<Longrightarrow> wf_state (canonical st)"
  by (auto simp: wf_state_def canonical_def wf_castling_def)

lemma reachable_wf: "reachable p \<Longrightarrow> wf_state p"
proof (induction rule: reachable.induct)
  case start
  show ?case by (rule initial_wf)
next
  case (moved p promotion "from" to s fen info)
  then show ?case using move_wf by blast
next
  case (installed p fen s)
  from fen_roundtrip[OF installed.IH] installed.hyps(2,3) have "s = canonical p" by auto
  then show ?case using canonical_wf[OF installed.IH] by simp
qed

section \<open>Games from the start position\<close>

lemma play_reachable: "reachable p \<Longrightarrow> play p ms = Some q \<Longrightarrow> reachable q"
proof (induction ms arbitrary: p)
  case Nil
  then show ?case by simp
next
  case (Cons m ms)
  obtain "from" to where m: "m = (from, to)" by (cases m)
  from Cons.prems(2) m obtain s fen info where
    s: "move p from to None = Some (Ok s fen info)" "play s ms = Some q"
    by (auto split: option.splits move_result.splits)
  have "reachable s" using reachable.moved[OF Cons.prems(1) _ s(1)] by (simp add: PROMOTIONS_def)
  then show ?case using s(2) by (rule Cons.IH)
qed

lemma play_castled:
  "play initial_state [(''g1'', ''f3''), (''g8'', ''f6''), (''e2'', ''e3''), (''e7'', ''e6''),
                       (''f1'', ''e2''), (''f8'', ''e7''), (''e1'', ''g1''), (''e8'', ''g8'')]
   = Some castled_state"
  by code_simp

lemma castled_reparsed:
  "Option.bind (boardToFEN castled_state) parseFEN = Some (castled_state\<lparr> castling := ''-'' \<rparr>)"
  by code_simp

lemma e2_moves:
  "movesFrom initial_state ''e2''
   = Some [\<lparr> mfrom = ''e2'', mto = ''e3'', mep = False, mcastle = None, mcaptured = None \<rparr>,
           \<lparr> mfrom = ''e2'', mto = ''e4'', mep = False, mcastle = None, mcaptured = None \<rparr>]"
  by code_simp

section \<open>Validation and the en-passant target\<close>

lemma color_mismatch:
  "((isWhitePiece pc \<and> t \<noteq> ''w'') \<or> (\<not> isWhitePiece pc \<and> t \<noteq> ''b'')) \<longleftrightarrow> color_of pc \<noteq> t"
  by (auto simp: color_of_def)

lemma e7_e5_turn: "move initial_state ''e7'' ''e5'' None = Some (Fail ''turn'')"
  by code_simp

lemma e2_e5_illegal: "move initial_state ''e2'' ''e5'' None = Some (Fail ''illegal'')"
  by code_simp

lemma e2_square: "sqToFR ''e2'' = (4, 1)"
  by code_simp

lemma label_not_dash: "0 \<le> f \<Longrightarrow> f < 8 \<Longrightarrow> 0 \<le> r \<Longrightarrow> r < 8 \<Longrightarrow> sq f r \<noteq> ''-'' \<and> sq f r \<noteq> []"
  by (simp add: sq_on_board)

lemma is_ok_Ok: "is_ok res \<Longrightarrow> res = Ok (res_state res) (res_fen res) (res_move res)"
  by (cases res) (simp_all add: is_ok_def)

lemma e2_e4_ok: "map_option is_ok (move initial_state ''e2'' ''e4'' None) = Some True"
  by code_simp

section \<open>Castling\<close>










section \<open>The snapshot matcher\<close>

lemma at_row: "length b = 8 \<Longrightarrow> r < 8 \<Longrightarrow> \<exists>c. at b (int r) f = Some c"
  by (simp add: at_def nth_opt_def)

lemma find_from_find:
  assumes "length b = 8" "length sb = 8" "\<forall>x \<in> set cs. fst x < 8"
  shows "find_from b pc sb cs = Some (find (takes b sb pc) cs)"
  using assms(3)
proof (induction cs)
  case Nil
  then show ?case by simp
next
  case (Cons x cs)
  obtain r f where x: "x = (r, f)" by (cases x)
  with Cons.prems have r: "r < 8" by simp
  obtain c where c: "at b (int r) (int f) = Some c" using at_row[OF assms(1) r] by blast
  obtain c' where c': "at sb (int r) (int f) = Some c'" using at_row[OF assms(2) r] by blast
  show ?case using Cons c c' x by (simp add: takes_def)
qed

lemma SCAN_set: "set SCAN = {x. fst x < 8 \<and> snd x < 8}"
  by (auto simp: SCAN_def)

lemma SCAN_sorted: "sorted_wrt earlier SCAN"
  by code_simp

lemma SCAN_distinct: "distinct SCAN"
  by code_simp

lemma find_first:
  assumes "sorted_wrt earlier xs" "find P xs = Some x"
  shows "x \<in> set xs \<and> P x \<and> (\<forall>y \<in> set xs. earlier y x \<longrightarrow> \<not> P y)"
  using assms
proof (induction xs)
  case Nil
  then show ?case by simp
next
  case (Cons a xs)
  show ?case
  proof (cases "P a")
    case True
    with Cons.prems(2) have "x = a" by simp
    moreover have "\<not> earlier y a" if "y \<in> set (a # xs)" for y
      using that Cons.prems(1) by (auto simp: earlier_def)
    ultimately show ?thesis using True by auto
  next
    case False
    with Cons.prems have "sorted_wrt earlier xs" "find P xs = Some x" by auto
    from Cons.IH[OF this] False show ?thesis by auto
  qed
qed

text \<open>What \<open>findPiece\<close> returns on boards of eight ranks.\<close>

lemma findPiece_first:
  assumes "length b = 8" "length sb = 8"
  shows "\<exists>res. findPiece b pc r0 f0 sb = Some res \<and>
           (case res of
              None \<Rightarrow> \<forall>x. fst x < 8 \<and> snd x < 8 \<longrightarrow> \<not> takes b sb pc x
            | Some x \<Rightarrow> fst x < 8 \<and> snd x < 8 \<and> takes b sb pc x
                         \<and> (\<forall>y. fst y < 8 \<and> snd y < 8 \<and> earlier y x \<longrightarrow> \<not> takes b sb pc y))"
proof -
  have "\<forall>x \<in> set SCAN. fst x < 8" by (simp add: SCAN_set)
  from find_from_find[OF assms this]
  have f: "findPiece b pc r0 f0 sb = Some (find (takes b sb pc) SCAN)" by (simp add: findPiece_def)
  show ?thesis
  proof (cases "find (takes b sb pc) SCAN")
    case None
    then have "\<forall>x. fst x < 8 \<and> snd x < 8 \<longrightarrow> \<not> takes b sb pc x"
      by (simp add: find_None_iff SCAN_set)
    with f None show ?thesis by simp
  next
    case (Some x)
    from find_first[OF SCAN_sorted Some] show ?thesis using f Some by (simp add: SCAN_set)
  qed
qed

lemma label_inj: "fst x < 8 \<Longrightarrow> snd x < 8 \<Longrightarrow> fst y < 8 \<Longrightarrow> snd y < 8 \<Longrightarrow>
   sq (int (snd x)) (int (fst x)) = sq (int (snd y)) (int (fst y)) \<Longrightarrow> x = y"
proof -
  assume a: "fst x < 8" "snd x < 8" "fst y < 8" "snd y < 8"
    and e: "sq (int (snd x)) (int (fst x)) = sq (int (snd y)) (int (fst y))"
  have "int (snd x) = int (snd y) \<and> int (fst x) = int (fst y)"
    by (rule sq_inj[OF _ _ _ _ _ _ _ _ e]) (use a in simp_all)
  then show "x = y" by (simp add: prod_eq_iff)
qed

lemma moving_from_entries:
  assumes "length sb = 8" "length eb = 8" "\<forall>x \<in> set cs. fst x < 8 \<and> snd x < 8" "distinct cs"
  shows "\<exists>m'. moving_from sb eb m cs = Some m' \<and>
           (\<forall>x. fst x < 8 \<and> snd x < 8 \<longrightarrow>
              m' (sq (int (snd x)) (int (fst x)))
                = (if x \<in> set cs then entry sb eb x (m (sq (int (snd x)) (int (fst x))))
                   else m (sq (int (snd x)) (int (fst x)))))"
  using assms(3,4)
proof (induction cs arbitrary: m)
  case Nil
  then show ?case by simp
next
  case (Cons c cs)
  obtain r f where c: "c = (r, f)" by (cases c)
  with Cons.prems have rf: "r < 8" "f < 8" and rest: "\<forall>x \<in> set cs. fst x < 8 \<and> snd x < 8" "distinct cs"
    and notin: "(r, f) \<notin> set cs" by auto
  obtain a where a: "at sb (int r) (int f) = Some a" using at_row[OF assms(1) rf(1)] by blast
  obtain b where b: "at eb (int r) (int f) = Some b" using at_row[OF assms(2) rf(1)] by blast
  let ?k = "sq (int f) (int r)"
  define m1 where "m1 = m(?k := entry sb eb (r, f) (m ?k))"
  have step: "moving_from sb eb m ((r, f) # cs) = moving_from sb eb m1 cs"
  proof (cases a)
    case None
    then have "m1 = m" using a by (simp add: m1_def entry_def)
    then show ?thesis using a b None by simp
  next
    case (Some pc)
    show ?thesis
    proof (cases "b = None \<or> a \<noteq> b")
      case False
      then have b': "at eb (int r) (int f) = Some (Some pc)" using b Some by simp
      have a': "at sb (int r) (int f) = Some (Some pc)" using a Some by simp
      have "m1 = m" using a' b' by (simp add: m1_def entry_def)
      then show ?thesis using a' b' by simp
    next
      case True
      then have ne: "at eb (int r) (int f) \<noteq> Some (Some pc)" using b Some by auto
      from findPiece_first[OF assms(2,1), of pc r f] obtain res where
        res: "findPiece eb pc r f sb = Some res" by blast
      show ?thesis
      proof (cases res)
        case None
        then have "m1 = m" using a Some ne res by (simp add: m1_def entry_def)
        then show ?thesis using a b Some True res None by simp
      next
        case (Some t)
        obtain tr tf where t: "t = (tr, tf)" by (cases t)
        have "m1 = m(?k \<mapsto> sq (int tf) (int tr))"
          using a \<open>a = Some pc\<close> ne res Some t by (simp add: m1_def entry_def)
        then show ?thesis using a b \<open>a = Some pc\<close> True res Some t by simp
      qed
    qed
  qed
  from Cons.IH[OF rest, of m1] obtain m' where
    m': "moving_from sb eb m1 cs = Some m'"
        "\<forall>x. fst x < 8 \<and> snd x < 8 \<longrightarrow>
              m' (sq (int (snd x)) (int (fst x)))
                = (if x \<in> set cs then entry sb eb x (m1 (sq (int (snd x)) (int (fst x))))
                   else m1 (sq (int (snd x)) (int (fst x))))" by blast
  have key: "m1 (sq (int (snd x)) (int (fst x)))
             = (if x = (r, f) then entry sb eb (r, f) (m ?k) else m (sq (int (snd x)) (int (fst x))))"
    if "fst x < 8" "snd x < 8" for x
  proof (cases "x = (r, f)")
    case True
    then show ?thesis by (simp add: m1_def)
  next
    case False
    have "sq (int (snd x)) (int (fst x)) \<noteq> ?k"
    proof
      assume "sq (int (snd x)) (int (fst x)) = ?k"
      then have "sq (int (snd x)) (int (fst x)) = sq (int (snd (r, f))) (int (fst (r, f)))" by simp
      from label_inj[OF that _ _ this] rf have "x = (r, f)" by simp
      with False show False by simp
    qed
    then show ?thesis using False by (simp add: m1_def)
  qed
  have fin: "m' (sq (int (snd x)) (int (fst x)))
                = (if x \<in> set (c # cs) then entry sb eb x (m (sq (int (snd x)) (int (fst x))))
                   else m (sq (int (snd x)) (int (fst x))))"
    if x: "fst x < 8 \<and> snd x < 8" for x
  proof -
    from m'(2) x have mx: "m' (sq (int (snd x)) (int (fst x)))
                = (if x \<in> set cs then entry sb eb x (m1 (sq (int (snd x)) (int (fst x))))
                   else m1 (sq (int (snd x)) (int (fst x))))" by blast
    from x have kx: "m1 (sq (int (snd x)) (int (fst x)))
             = (if x = (r, f) then entry sb eb (r, f) (m ?k) else m (sq (int (snd x)) (int (fst x))))"
      by (intro key) auto
    show ?thesis
    proof (cases "x = (r, f)")
      case True
      then have "x \<notin> set cs" using notin by simp
      then show ?thesis unfolding mx kx using True c by simp
    next
      case False
      then show ?thesis unfolding mx kx using c by simp
    qed
  qed
  have "moving_from sb eb m (c # cs) = Some m'" using step m'(1) c by simp
  with fin show ?case by blast
qed

section \<open>The copy made by clone, and the objects move writes to\<close>

lemma lives_iff:
  "lives P h e \<longleftrightarrow>
     (\<exists>sa so ba. P e \<and> rules h e = Some sa \<and> P sa \<and> states h sa = Some so
        \<and> P (o_board so) \<and> arrays h (o_board so) = Some ba \<and> distinct ba
        \<and> (\<forall>ra \<in> set ba. P ra \<and> ranks h ra \<noteq> None))"
  by (auto simp: lives_def split: option.splits)

lemma agree_refl: "agree n h h"
  by (simp add: agree_def)

lemma agree_trans: "agree n h h' \<Longrightarrow> agree n h' h'' \<Longrightarrow> agree n h h''"
  by (simp add: agree_def)

lemma agree_mono: "agree n h h' \<Longrightarrow> m \<le> n \<Longrightarrow> agree m h h'"
  by (simp add: agree_def)

lemma those_map_ranks:
  assumes "\<forall>a \<in> set as. a < n" "agree n h h'"
  shows "those (map (ranks h') as) = those (map (ranks h) as)"
proof -
  have "map (ranks h') as = map (ranks h) as" using assms by (simp add: agree_def)
  then show ?thesis by (simp del: map_eq_conv)
qed

lemma load_agree:
  assumes l: "lives (\<lambda>a. a < n) h e" and a: "agree n h h'"
  shows "load h' e = load h e" and "lives (\<lambda>a. a < n) h' e"
proof -
  from l obtain sa so ba where
    o: "e < n" "rules h e = Some sa" "sa < n" "states h sa = Some so"
       "o_board so < n" "arrays h (o_board so) = Some ba" "distinct ba"
       "\<forall>ra \<in> set ba. ra < n \<and> ranks h ra \<noteq> None"
    unfolding lives_iff by blast
  have o': "rules h' e = Some sa" "states h' sa = Some so" "arrays h' (o_board so) = Some ba"
    using a o by (simp_all add: agree_def)
  have rk: "\<forall>ra \<in> set ba. ranks h' ra = ranks h ra" using a o(8) by (simp add: agree_def)
  then have "map (ranks h') ba = map (ranks h) ba" by simp
  then show "load h' e = load h e" using o(2,4,6) o' by (simp add: load_def load_state_def del: map_eq_conv)
  show "lives (\<lambda>a. a < n) h' e" unfolding lives_iff using o o' rk by auto
qed

lemma alloc_ranks_props:
  "alloc_ranks h rws = (h', as) \<Longrightarrow>
     nxt h' = nxt h + length rws \<and> as = [nxt h ..< nxt h + length rws]
     \<and> rules h' = rules h \<and> states h' = states h \<and> arrays h' = arrays h
     \<and> (\<forall>a. ranks h' a = (if nxt h \<le> a \<and> a < nxt h + length rws then Some (rws ! (a - nxt h)) else ranks h a))"
proof (induction rws arbitrary: h h' as)
  case Nil
  then show ?case by auto
next
  case (Cons rw rws)
  let ?h1 = "h\<lparr> ranks := (ranks h)(nxt h \<mapsto> rw), nxt := nxt h + 1 \<rparr>"
  obtain h2 as2 where r: "alloc_ranks ?h1 rws = (h2, as2)" by (cases "alloc_ranks ?h1 rws")
  with Cons.prems have e: "h' = h2" "as = nxt h # as2" by (simp_all add: Let_def)
  note ih = Cons.IH[OF r]
  have 1: "nxt h' = nxt h + length (rw # rws)" using ih e by simp
  have 2: "as = [nxt h ..< nxt h + length (rw # rws)]" using ih e by (simp add: upt_rec)
  have 3: "rules h' = rules h \<and> states h' = states h \<and> arrays h' = arrays h" using ih e by simp
  have 4: "ranks h' a = (if nxt h \<le> a \<and> a < nxt h + length (rw # rws) then Some ((rw # rws) ! (a - nxt h)) else ranks h a)" for a
  proof -
    have "ranks h' a = (if nxt ?h1 \<le> a \<and> a < nxt ?h1 + length rws then Some (rws ! (a - nxt ?h1)) else ranks ?h1 a)"
      using ih e by blast
    then show ?thesis by (auto simp: nth_Cons' Suc_diff_le)
  qed
  show ?case using 1 2 3 4 by blast
qed


lemma those_map_Some_id: "those (map Some xs) = Some xs"
  by (induction xs) auto

lemma map_upt_shift: "map (\<lambda>a. f (a - n)) [n ..< n + k] = map f [0 ..< k]"
  by (induction k) auto

lemma view_obj_of: "view (obj_of st ba) (board st) = st"
  by (simp add: view_def obj_of_def)

lemma alloc_state_props:
  assumes "alloc_state h st = (h', sa)"
  shows "sa = nxt h + length (board st) + 1" "nxt h' = nxt h + length (board st) + 2"
    "rules h' = rules h"
    "states h' = (states h)(sa \<mapsto> obj_of st (nxt h + length (board st)))"
    "arrays h' = (arrays h)(nxt h + length (board st) \<mapsto> [nxt h ..< nxt h + length (board st)])"
    "\<And>a. ranks h' a = (if nxt h \<le> a \<and> a < nxt h + length (board st)
                          then Some (board st ! (a - nxt h)) else ranks h a)"
proof -
  obtain h1 ras where r: "alloc_ranks h (board st) = (h1, ras)" by (cases "alloc_ranks h (board st)")
  note p = alloc_ranks_props[OF r]
  from assms r have h': "h' = h1\<lparr> arrays := (arrays h1)(nxt h1 \<mapsto> ras), nxt := nxt h1 + 1,
                                  states := (states h1)(nxt h1 + 1 \<mapsto> obj_of st (nxt h1)), nxt := nxt h1 + 1 + 1 \<rparr>"
    and sa: "sa = nxt h1 + 1"
    by (auto simp: alloc_state_def Let_def obj_of_def)
  show "sa = nxt h + length (board st) + 1" using sa p by simp
  show "nxt h' = nxt h + length (board st) + 2" using h' p by simp
  show "rules h' = rules h" using h' p by simp
  show "states h' = (states h)(sa \<mapsto> obj_of st (nxt h + length (board st)))" using h' sa p by simp
  show "arrays h' = (arrays h)(nxt h + length (board st) \<mapsto> [nxt h ..< nxt h + length (board st)])"
    using h' p by simp
  show "\<And>a. ranks h' a = (if nxt h \<le> a \<and> a < nxt h + length (board st)
                          then Some (board st ! (a - nxt h)) else ranks h a)"
    using h' p by simp
qed

lemma alloc_state_agree:
  assumes "alloc_state h st = (h', sa)"
  shows "agree (nxt h) h h'"
  unfolding agree_def using alloc_state_props[OF assms] by simp

lemma alloc_state_ranks:
  assumes "alloc_state h st = (h', sa)"
  shows "map (ranks h') [nxt h ..< nxt h + length (board st)] = map Some (board st)"
proof -
  have "map (ranks h') [nxt h ..< nxt h + length (board st)]
        = map (\<lambda>a. Some (board st ! (a - nxt h))) [nxt h ..< nxt h + length (board st)]"
    by (rule map_cong) (simp_all add: alloc_state_props(6)[OF assms])
  also have "\<dots> = map (\<lambda>i. Some (board st ! i)) [0 ..< length (board st)]"
    by (rule map_upt_shift)
  also have "\<dots> = map Some (map ((!) (board st)) [0 ..< length (board st)])" by simp
  also have "\<dots> = map Some (board st)" by (simp only: map_nth)
  finally show ?thesis .
qed

lemma alloc_state_load:
  assumes "alloc_state h st = (h', sa)"
  shows "load_state h' sa = Some st"
proof -
  note p = alloc_state_props[OF assms]
  have "states h' sa = Some (obj_of st (nxt h + length (board st)))" using p(4) by simp
  moreover have "arrays h' (nxt h + length (board st)) = Some [nxt h ..< nxt h + length (board st)]"
    using p(5) by simp
  moreover have "those (map (ranks h') [nxt h ..< nxt h + length (board st)]) = Some (board st)"
    by (simp only: alloc_state_ranks[OF assms] those_map_Some_id)
  moreover have "o_board (obj_of st (nxt h + length (board st))) = nxt h + length (board st)"
    by (simp add: obj_of_def)
  ultimately show ?thesis by (simp add: load_state_def view_obj_of)
qed

lemma lives_load:
  assumes "lives P h e"
  shows "\<exists>st. load h e = Some st"
proof -
  from assms obtain sa so ba where
    o: "rules h e = Some sa" "states h sa = Some so" "arrays h (o_board so) = Some ba"
       "\<forall>ra \<in> set ba. ranks h ra \<noteq> None"
    unfolding lives_iff by blast
  have "those (map (ranks h) ba) = Some (map (\<lambda>a. the (ranks h a)) ba)"
    by (rule those_map_Some) (use o(4) in auto)
  then show ?thesis using o by (simp add: load_def load_state_def)
qed

lemma clone_props:
  assumes l: "lives (\<lambda>a. a < nxt h) h this" and st: "load h this = Some st"
  shows "\<exists>h0 s. clone h this = Some (h0, s) \<and> agree (nxt h) h h0 \<and> models (nxt h) h0 s st"
proof -
  obtain h1 sa0 where a1: "alloc_state h initial_state = (h1, sa0)" by (cases "alloc_state h initial_state")
  note p1 = alloc_state_props[OF a1]
  let ?c = "nxt h1"
  let ?h2 = "h1\<lparr> rules := (rules h1)(?c \<mapsto> sa0), nxt := ?c + 1 \<rparr>"
  have n1: "nxt h \<le> nxt h1" using p1(2) by simp
  have ag2: "agree (nxt h) h ?h2"
    using alloc_state_agree[OF a1] n1 by (auto simp: agree_def)
  have st2: "load ?h2 this = Some st" using load_agree(1)[OF l ag2] st by simp
  obtain h3 sa where a3: "alloc_state ?h2 st = (h3, sa)" by (cases "alloc_state ?h2 st")
  note p3 = alloc_state_props[OF a3]
  let ?h0 = "h3\<lparr> rules := (rules h3)(?c \<mapsto> sa) \<rparr>"
  have cl: "clone h this = Some (?h0, ?c)"
    using a1 st2 a3 by (simp add: clone_def parseFEN_START_FEN Let_def)
  have ag3: "agree (nxt h) ?h2 h3"
    using alloc_state_agree[OF a3] n1 by (auto simp: agree_def)
  have ag0: "agree (nxt h) h ?h0"
    using agree_trans[OF ag2 ag3] n1 by (auto simp: agree_def)
  let ?n2 = "nxt ?h2"
  let ?k = "length (board st)"
  have n2: "nxt h \<le> ?n2" using n1 by simp
  have ld: "load ?h0 ?c = Some st"
  proof -
    have "load_state ?h0 sa = load_state h3 sa" by (simp add: load_state_def)
    then show ?thesis using alloc_state_load[OF a3] by (simp add: load_def)
  qed
  have lv: "lives (\<lambda>a. nxt h \<le> a) ?h0 ?c"
    unfolding lives_iff
  proof (intro exI conjI)
    show "nxt h \<le> ?c" by (rule n1)
    show "rules ?h0 ?c = Some sa" by simp
    show "nxt h \<le> sa" using p3(1) n2 by simp
    show "states ?h0 sa = Some (obj_of st (?n2 + ?k))" using p3(4) by simp
    show "nxt h \<le> o_board (obj_of st (?n2 + ?k))" using n2 by (simp add: obj_of_def)
    show "arrays ?h0 (o_board (obj_of st (?n2 + ?k))) = Some [?n2 ..< ?n2 + ?k]"
      using p3(5) by (simp add: obj_of_def)
    show "distinct [?n2 ..< ?n2 + ?k]" by simp
    show "\<forall>ra \<in> set [?n2 ..< ?n2 + ?k]. nxt h \<le> ra \<and> ranks ?h0 ra \<noteq> None"
      using n2 p3(6) by auto
  qed
  show ?thesis using cl ag0 lv ld unfolding models_def by blast
qed

lemma those_SomeD: "those xs = Some ys \<Longrightarrow> xs = map Some ys"
  by (induction xs arbitrary: ys) (auto split: option.splits)

lemma models_D:
  assumes "models n h s st"
  shows "\<exists>sa so ba. rules h s = Some sa \<and> n \<le> sa \<and> states h sa = Some so \<and> n \<le> o_board so
           \<and> arrays h (o_board so) = Some ba \<and> distinct ba \<and> (\<forall>ra \<in> set ba. n \<le> ra)
           \<and> st = view so (board st) \<and> length (board st) = length ba
           \<and> (\<forall>i < length ba. ranks h (ba ! i) = Some (board st ! i))"
proof -
  from assms obtain sa so ba where
    o: "rules h s = Some sa" "n \<le> sa" "states h sa = Some so" "n \<le> o_board so"
       "arrays h (o_board so) = Some ba" "distinct ba" "\<forall>ra \<in> set ba. n \<le> ra \<and> ranks h ra \<noteq> None"
    unfolding models_def lives_iff by blast
  from assms have "load h s = Some st" by (simp add: models_def)
  with o obtain rws where rws: "those (map (ranks h) ba) = Some rws" "st = view so rws"
    by (auto simp: load_def load_state_def split: Option.bind_splits)
  from those_SomeD[OF rws(1)] have m: "map (ranks h) ba = map Some rws" .
  have b: "board st = rws" using rws(2) by (simp add: view_def)
  have len: "length rws = length ba" using arg_cong[OF m, of length] by simp
  have "ranks h (ba ! i) = Some (rws ! i)" if "i < length ba" for i
    using arg_cong[OF m, of "\<lambda>xs. xs ! i"] that len by simp
  then show ?thesis using o rws(2) b len by auto
qed

lemma models_I:
  assumes "rules h s = Some sa" "n \<le> s" "n \<le> sa" "states h sa = Some so" "n \<le> o_board so"
    "arrays h (o_board so) = Some ba" "distinct ba" "\<forall>ra \<in> set ba. n \<le> ra"
    "length b = length ba" "\<forall>i < length ba. ranks h (ba ! i) = Some (b ! i)"
  shows "models n h s (view so b)"
proof -
  have m: "map (ranks h) ba = map Some b"
    using assms(9,10) by (intro nth_equalityI) auto
  have "those (map (ranks h) ba) = Some b" by (simp only: m those_map_Some_id)
  then have "load h s = Some (view so b)" using assms(1,4,6) by (simp add: load_def load_state_def)
  moreover have "\<forall>ra \<in> set ba. n \<le> ra \<and> ranks h ra \<noteq> None"
    using assms(8,10) by (auto simp: in_set_conv_nth)
  ultimately show ?thesis unfolding models_def lives_iff using assms(1-7) by blast
qed

lemma view_fields:
  assumes "st = view so b0"
  shows "turn st = o_turn so" "castling st = o_castling so" "ep st = o_ep so"
    "halfmove st = o_halfmove so" "fullmove st = o_fullmove so"
  by (simp_all add: assms view_def)

lemma view_board:
  assumes "st = view so (board st)"
  shows "view so b = st\<lparr> board := b \<rparr>"
  by (rule state.equality) (simp_all add: view_def view_fields[OF assms])

lemma models_above: "models n h s st \<Longrightarrow> n \<le> s"
  by (simp add: models_def lives_iff)

lemma read_cell_models:
  assumes "models n h s st"
  shows "read_cell h s r f = at (board st) r f"
proof -
  from models_D[OF assms] obtain sa so ba where
    o: "rules h s = Some sa" "states h sa = Some so" "arrays h (o_board so) = Some ba"
       "length (board st) = length ba" "\<forall>i < length ba. ranks h (ba ! i) = Some (board st ! i)" by blast
  show ?thesis
  proof (cases "0 \<le> r \<and> r < int (length ba)")
    case True
    then have "nat r < length ba" by linarith
    with o(5) have "ranks h (ba ! nat r) = Some (board st ! nat r)" by blast
    then show ?thesis using True o(1-4) by (simp add: read_cell_def at_def nth_opt_def)
  next
    case False
    then show ?thesis using o(1-4) by (auto simp: read_cell_def at_def nth_opt_def)
  qed
qed

lemma read_state_models:
  assumes "models n h s st"
  shows "\<exists>so. read_state h s = Some so \<and> st = view so (board st)"
  using models_D[OF assms] by (auto simp: read_state_def)

lemma write_cell_models:
  assumes m: "models n h s st"
  shows "(put_cell st r f v = None \<longrightarrow> write_cell h s r f v = None)
       \<and> (\<forall>st'. put_cell st r f v = Some st'
            \<longrightarrow> (\<exists>h'. write_cell h s r f v = Some h' \<and> models n h' s st' \<and> agree n h h'))"
proof -
  from models_D[OF m] obtain sa so ba where
    o: "rules h s = Some sa" "n \<le> sa" "states h sa = Some so" "n \<le> o_board so"
       "arrays h (o_board so) = Some ba" "distinct ba" "\<forall>ra \<in> set ba. n \<le> ra"
       "st = view so (board st)" "length (board st) = length ba"
       "\<forall>i < length ba. ranks h (ba ! i) = Some (board st ! i)" by blast
  show ?thesis
  proof (cases "0 \<le> r \<and> r < int (length ba)")
    case False
    then show ?thesis using o(1,3,5,9) by (auto simp: put_cell_def put_def write_cell_def nth_opt_def)
  next
    case True
    then have r: "nat r < length ba" by linarith
    let ?ra = "ba ! nat r"
    let ?rw = "board st ! nat r"
    let ?h' = "h\<lparr> ranks := (ranks h)(?ra \<mapsto> js_set ?rw f v) \<rparr>"
    let ?b' = "(board st)[nat r := js_set ?rw f v]"
    have rk: "ranks h ?ra = Some ?rw" using o(10) r by blast
    have w: "write_cell h s r f v = Some ?h'"
      using True o(1,3,5) rk by (simp add: write_cell_def nth_opt_def)
    have p: "put_cell st r f v = Some (st\<lparr> board := ?b' \<rparr>)"
      using True o(9) by (simp add: put_cell_def put_def nth_opt_def)
    have ge: "n \<le> ?ra" using o(7) r by simp
    have ag: "agree n h ?h'" using ge by (auto simp: agree_def)
    have cells: "\<forall>i < length ba. ranks ?h' (ba ! i) = Some (?b' ! i)"
    proof (intro allI impI)
      fix i assume i: "i < length ba"
      show "ranks ?h' (ba ! i) = Some (?b' ! i)"
      proof (cases "i = nat r")
        case True
        then show ?thesis using r o(9) by simp
      next
        case False
        then have "ba ! i \<noteq> ?ra" using o(6) i r by (simp add: nth_eq_iff_index_eq)
        then show ?thesis using False o(10) i by simp
      qed
    qed
    have "models n ?h' s (view so ?b')"
      by (rule models_I[where sa = sa and ba = ba])
         (use o cells models_above[OF m] in simp_all)
    moreover have "view so ?b' = st\<lparr> board := ?b' \<rparr>"
      using o(8) by (rule view_board)
    ultimately show ?thesis using w p ag by auto
  qed
qed

lemma write_state_models:
  assumes m: "models n h s st"
    and g: "\<And>so. o_board (g so) = o_board so" "\<And>so b. view (g so) b = G (view so b)"
  shows "\<exists>h'. write_state h s g = Some h' \<and> models n h' s (G st) \<and> agree n h h'"
proof -
  from models_D[OF m] obtain sa so ba where
    o: "rules h s = Some sa" "n \<le> sa" "states h sa = Some so" "n \<le> o_board so"
       "arrays h (o_board so) = Some ba" "distinct ba" "\<forall>ra \<in> set ba. n \<le> ra"
       "st = view so (board st)" "length (board st) = length ba"
       "\<forall>i < length ba. ranks h (ba ! i) = Some (board st ! i)" by blast
  let ?h' = "h\<lparr> states := (states h)(sa \<mapsto> g so) \<rparr>"
  have w: "write_state h s g = Some ?h'" using o(1,3) by (simp add: write_state_def)
  have ag: "agree n h ?h'" using o(2) by (auto simp: agree_def)
  have "models n ?h' s (view (g so) (board st))"
    by (rule models_I[where sa = sa and ba = ba])
       (use o g(1) models_above[OF m] in simp_all)
  moreover have "view (g so) (board st) = G st" using g(2)[of so "board st"] o(8) by simp
  ultimately show ?thesis using w ag by auto
qed

lemma tracks_I:
  assumes "models n h' s st'" "agree n h0 h'"
  shows "tracks n h0 s (Some h') (Some st')"
  using assms by (simp add: tracks_def)

lemma tracks_put:
  assumes "models n h s st" "agree n h0 h"
  shows "tracks n h0 s (write_cell h s r f v) (put_cell st r f v)"
proof (cases "put_cell st r f v")
  case None
  then show ?thesis using write_cell_models[OF assms(1), of r f v] by (simp add: tracks_def)
next
  case (Some st')
  with write_cell_models[OF assms(1), of r f v] obtain h' where
    "write_cell h s r f v = Some h'" "models n h' s st'" "agree n h h'" by blast
  then show ?thesis using Some agree_trans[OF assms(2)] by (auto simp: tracks_def)
qed

lemma tracks_state:
  assumes "models n h s st" "agree n h0 h"
    and g: "\<And>so. o_board (g so) = o_board so" "\<And>so b. view (g so) b = G (view so b)"
  shows "tracks n h0 s (write_state h s g) (Some (G st))"
proof -
  from write_state_models[OF assms(1) g] obtain h' where
    "write_state h s g = Some h'" "models n h' s (G st)" "agree n h h'" by blast
  then show ?thesis using agree_trans[OF assms(2)] by (auto simp: tracks_def)
qed

lemma tracks_if:
  assumes "c \<Longrightarrow> tracks n h0 s X1 Y1" "\<not> c \<Longrightarrow> tracks n h0 s X2 Y2"
  shows "tracks n h0 s (if c then X1 else X2) (if c then Y1 else Y2)"
  using assms by simp

lemma tracks_bind:
  assumes "tracks n h0 s X Y"
    and "\<And>h' st'. models n h' s st' \<Longrightarrow> agree n h0 h' \<Longrightarrow> tracks n h0 s (F h') (G st')"
  shows "tracks n h0 s (Option.bind X F) (Option.bind Y G)"
proof (cases Y)
  case None
  then show ?thesis using assms(1) by (simp add: tracks_def)
next
  case (Some st')
  with assms(1) obtain h' where h': "X = Some h'" "models n h' s st'" "agree n h0 h'"
    by (auto simp: tracks_def)
  from assms(2)[OF h'(2,3)] show ?thesis using Some h'(1) by simp
qed

lemma yields_bind:
  assumes "tracks n h0 s X Y"
    and "\<And>h' st'. models n h' s st' \<Longrightarrow> agree n h0 h' \<Longrightarrow> yields n h0 (F h') (G st')"
  shows "yields n h0 (Option.bind X F) (Option.bind Y G)"
proof (cases Y)
  case None
  then show ?thesis using assms(1) by (simp add: tracks_def yields_def)
next
  case (Some st')
  with assms(1) obtain h' where h': "X = Some h'" "models n h' s st'" "agree n h0 h'"
    by (auto simp: tracks_def)
  from assms(2)[OF h'(2,3)] show ?thesis using Some h'(1) by simp
qed

lemma tracks_castle:
  assumes m: "models n h s st" and a: "agree n h0 h"
  shows "tracks n h0 s (castle_rook_h h s ar bf) (castle_rook st ar bf)"
proof -
  have side: "tracks n h0 s
      (Option.bind (read_cell h s ar c) (\<lambda>rk. Option.bind (write_cell h s ar d rk) (\<lambda>h'. write_cell h' s ar c None)))
      (Option.bind (at (board st) ar c) (\<lambda>rk. Option.bind (put_cell st ar d rk) (\<lambda>s'. put_cell s' ar c None)))"
    for c d
  proof (cases "at (board st) ar c")
    case None
    then show ?thesis by (simp add: tracks_def read_cell_models[OF m])
  next
    case (Some rk)
    have "tracks n h0 s (Option.bind (write_cell h s ar d rk) (\<lambda>h'. write_cell h' s ar c None))
                        (Option.bind (put_cell st ar d rk) (\<lambda>s'. put_cell s' ar c None))"
      by (rule tracks_bind[OF tracks_put[OF m a]]) (rule tracks_put)
    then show ?thesis using Some by (simp add: read_cell_models[OF m])
  qed
  show ?thesis
    unfolding castle_rook_h_def castle_rook_def
    by (intro tracks_if side tracks_I m a)
qed

lemma tracks_counters:
  assumes m: "models n h s st" and a: "agree n h0 h"
  shows "tracks n h0 s (counters_h h s p af ar br mv) (Some (counters st p af ar br mv))"
proof -
  let ?isW = "isWhitePiece p"
  let ?d = "(if ?isW then 1 else - 1 :: int)"
  let ?pawn2 = "toLowerCase p = CHR ''p'' \<and> \<bar>br - ar\<bar> = 2"
  let ?g6 = "\<lambda>so. so\<lparr> o_ep := ''-'' \<rparr>"
  let ?g7 = "\<lambda>so. so\<lparr> o_ep := sq af (ar + ?d) \<rparr>"
  let ?g8 = "\<lambda>so. so\<lparr> o_turn := (if o_turn so = ''w'' then ''b'' else ''w'') \<rparr>"
  let ?g9 = "\<lambda>so. so\<lparr> o_halfmove := (if toLowerCase p = CHR ''p'' \<or> mcaptured mv \<noteq> None then Num 0
                   else Num (num_or (o_halfmove so) 0 + 1)) \<rparr>"
  let ?g10 = "\<lambda>so. so\<lparr> o_fullmove := Num (num_or (o_fullmove so) 1 + 1) \<rparr>"
  let ?s6 = "st\<lparr> ep := ''-'' \<rparr>"
  let ?s7 = "(if ?pawn2 then ?s6\<lparr> ep := sq af (ar + ?d) \<rparr> else ?s6)"
  let ?s8 = "?s7\<lparr> turn := (if turn ?s7 = ''w'' then ''b'' else ''w'') \<rparr>"
  let ?s9 = "?s8\<lparr> halfmove := (if toLowerCase p = CHR ''p'' \<or> mcaptured mv \<noteq> None then Num 0
                   else Num (num_or (halfmove ?s8) 0 + 1)) \<rparr>"
  let ?s10 = "(if turn ?s9 = ''w'' then ?s9\<lparr> fullmove := Num (num_or (fullmove ?s9) 1 + 1) \<rparr> else ?s9)"
  let ?G9 = "\<lambda>s. s\<lparr> halfmove := (if toLowerCase p = CHR ''p'' \<or> mcaptured mv \<noteq> None then Num 0
                   else Num (num_or (halfmove s) 0 + 1)) \<rparr>"
  have "\<exists>h6. write_state h s ?g6 = Some h6 \<and> models n h6 s ?s6 \<and> agree n h h6"
    by (rule write_state_models[OF m, where G = "\<lambda>s. s\<lparr> ep := ''-'' \<rparr>"]) (simp_all add: view_def)
  then obtain h6 where h6: "write_state h s ?g6 = Some h6" "models n h6 s ?s6" "agree n h h6" by blast
  have "\<exists>h7. (if ?pawn2 then write_state h6 s ?g7 else Some h6) = Some h7 \<and> models n h7 s ?s7 \<and> agree n h6 h7"
  proof (cases ?pawn2)
    case True
    have "\<exists>h7. write_state h6 s ?g7 = Some h7 \<and> models n h7 s (?s6\<lparr> ep := sq af (ar + ?d) \<rparr>) \<and> agree n h6 h7"
      by (rule write_state_models[OF h6(2), where G = "\<lambda>s. s\<lparr> ep := sq af (ar + ?d) \<rparr>"])
         (simp_all add: view_def)
    then show ?thesis by (simp only: if_P[OF True])
  next
    case False
    show ?thesis using h6(2) agree_refl[of n h6] by (simp only: if_not_P[OF False]) blast
  qed
  then obtain h7 where h7: "(if ?pawn2 then write_state h6 s ?g7 else Some h6) = Some h7"
      "models n h7 s ?s7" "agree n h6 h7" by blast
  have "\<exists>h8. write_state h7 s ?g8 = Some h8 \<and> models n h8 s ?s8 \<and> agree n h7 h8"
    by (rule write_state_models[OF h7(2), where G = "\<lambda>s. s\<lparr> turn := (if turn s = ''w'' then ''b'' else ''w'') \<rparr>"])
       (simp_all add: view_def)
  then obtain h8 where h8: "write_state h7 s ?g8 = Some h8" "models n h8 s ?s8" "agree n h7 h8" by blast
  have "\<exists>h9. write_state h8 s ?g9 = Some h9 \<and> models n h9 s ?s9 \<and> agree n h8 h9"
    by (rule write_state_models[OF h8(2), where G = ?G9]) (simp_all add: view_def)
  then obtain h9 where h9: "write_state h8 s ?g9 = Some h9" "models n h9 s ?s9" "agree n h8 h9" by blast
  from read_state_models[OF h9(2)] obtain so where
    so: "read_state h9 s = Some so" "?s9 = view so (board ?s9)" by blast
  have tn: "o_turn so = turn ?s9" using view_fields(1)[OF so(2)] by simp
  have "\<exists>h10. (if o_turn so = ''w'' then write_state h9 s ?g10 else Some h9) = Some h10
           \<and> models n h10 s ?s10 \<and> agree n h9 h10"
  proof (cases "turn ?s9 = ''w''")
    case True
    have "\<exists>h10. write_state h9 s ?g10 = Some h10
            \<and> models n h10 s (?s9\<lparr> fullmove := Num (num_or (fullmove ?s9) 1 + 1) \<rparr>) \<and> agree n h9 h10"
      by (rule write_state_models[OF h9(2), where G = "\<lambda>s. s\<lparr> fullmove := Num (num_or (fullmove s) 1 + 1) \<rparr>"])
         (simp_all add: view_def)
    then show ?thesis unfolding tn by (simp only: if_P[OF True])
  next
    case False
    show ?thesis unfolding tn using h9(2) agree_refl[of n h9] by (simp only: if_not_P[OF False]) blast
  qed
  then obtain h10 where h10: "(if o_turn so = ''w'' then write_state h9 s ?g10 else Some h9) = Some h10"
      "models n h10 s ?s10" "agree n h9 h10" by blast
  have c: "counters st p af ar br mv = ?s10" by (simp only: counters_def Let_def)
  have ch: "counters_h h s p af ar br mv = Some h10"
    unfolding counters_h_def Let_def
    by (simp only: h6(1) h7(1) h8(1) h9(1) so(1) h10(1) Option.bind.simps)
  have "agree n h0 h10"
    using a h6(3) h7(3) h8(3) h9(3) h10(3) by (blast intro: agree_trans)
  then show ?thesis unfolding c ch using h10(2) by (simp add: tracks_def)
qed

lemma yields_let:
  assumes "tracks n h0 s X (Some y)"
    and "\<And>h'. models n h' s y \<Longrightarrow> agree n h0 h' \<Longrightarrow> yields n h0 (F h') Z"
  shows "yields n h0 (Option.bind X F) Z"
proof -
  from assms(1) obtain h' where h': "X = Some h'" "models n h' s y" "agree n h0 h'"
    by (auto simp: tracks_def)
  from assms(2)[OF h'(2,3)] show ?thesis using h'(1) by simp
qed

lemma getFEN_models: "models n h s st \<Longrightarrow> getFEN h s = boardToFEN st"
  by (simp add: getFEN_def models_def)

lemma apply_move_h_yields:
  assumes m: "models n h s st" and a: "agree n h0 h"
    and l: "lives (\<lambda>a. a < n) h0 this" and t: "load h0 this = Some tst"
  shows "yields n h0 (apply_move_h h this s from to promotion p mv)
                     (apply_move tst st from to promotion p mv)"
proof -
  obtain af ar where f: "sqToFR from = (af, ar)" by (cases "sqToFR from")
  obtain bf br where b: "sqToFR to = (bf, br)" by (cases "sqToFR to")
  have tail: "yields n h0
      (do { this_st \<leftarrow> load h' this;
            before \<leftarrow> boardToArr (board this_st);
            s_st \<leftarrow> load h' s;
            after \<leftarrow> boardToArr (board s_st);
            fen \<leftarrow> getFEN h' s;
            Some (Ok s_st fen \<lparr> i_from = from, i_to = to, i_piece = p,
                                  i_captured = mcaptured mv, i_before = before, i_after = after \<rparr>, h') })
      (do { before \<leftarrow> boardToArr (board tst);
            after \<leftarrow> boardToArr (board st');
            fen \<leftarrow> boardToFEN st';
            Some (Ok st' fen \<lparr> i_from = from, i_to = to, i_piece = p,
                                i_captured = mcaptured mv, i_before = before, i_after = after \<rparr>) })"
    if "models n h' s st'" "agree n h0 h'" for h' st'
  proof -
    have 1: "load h' this = Some tst" using load_agree(1)[OF l that(2)] t by simp
    have 2: "load h' s = Some st'" using that(1) by (simp add: models_def)
    have 3: "getFEN h' s = boardToFEN st'" using that(1) by (rule getFEN_models)
    show ?thesis
      by (cases "boardToArr (board tst)"; cases "boardToArr (board st')"; cases "boardToFEN st'")
         (simp_all add: 1 2 3 yields_def that(2))
  qed
  show ?thesis
    unfolding apply_move_h_def apply_move_def f b split_conv Let_def
    apply (rule yields_bind[where s = s])
     apply (rule tracks_if)
      apply (rule tracks_put[OF m a])
     apply (rule tracks_I[OF m a])
    apply (rule yields_bind[where s = s])
     apply (erule (1) tracks_put)
    apply (rule yields_bind[where s = s])
     apply (erule (1) tracks_put)
    apply (rule yields_bind[where s = s])
     apply (rule tracks_if)
      apply (erule (1) tracks_put)
     apply (erule (1) tracks_I)
    apply (rule yields_bind[where s = s])
     apply (rule tracks_if)
      apply (rule tracks_bind)
       apply (erule (1) tracks_castle)
      apply (erule (1) tracks_state)
       apply simp
      apply (simp add: view_def)
     apply (erule (1) tracks_I)
    apply (rule yields_let[where s = s])
     apply (erule (1) tracks_counters)
    apply (erule (1) tail)
    done
qed

lemma move_h_yields:
  assumes l: "lives (\<lambda>a. a < nxt h) h this" and t: "load h this = Some st"
  shows "yields (nxt h) h (move_h h this from to promotion) (move st from to promotion)"
proof -
  from clone_props[OF l t] obtain h0 s where
    c: "clone h this = Some (h0, s)" "agree (nxt h) h h0" "models (nxt h) h0 s st" by blast
  obtain af ar where f: "sqToFR from = (af, ar)" by (cases "sqToFR from")
  note rc = read_cell_models[OF c(3), of ar af]
  from read_state_models[OF c(3)] obtain so where
    so: "read_state h0 s = Some so" "st = view so (board st)" by blast
  have tn: "o_turn so = turn st" using view_fields(1)[OF so(2)] by simp
  have lt: "load h0 this = Some st" using load_agree(1)[OF l c(2)] t by simp
  note ap = apply_move_h_yields[OF c(3) c(2) l t, of "from" to promotion]
  show ?thesis
  proof (cases "at (board st) ar af")
    case None
    then show ?thesis by (simp add: move_h_def move_def c(1) f rc yields_def)
  next
    case (Some po)
    show ?thesis
    proof (cases po)
      case None
      then show ?thesis using Some c(2) by (simp add: move_h_def move_def c(1) f rc yields_def)
    next
      case p: (Some p)
      show ?thesis
      proof (cases "(isWhitePiece p \<and> turn st \<noteq> ''w'') \<or> (\<not> isWhitePiece p \<and> turn st \<noteq> ''b'')")
        case True
        then show ?thesis using Some p c(2)
          by (simp add: move_h_def move_def c(1) f rc so(1) tn yields_def Let_def)
      next
        case False
        show ?thesis
        proof (cases "movesFrom st from")
          case None
          then show ?thesis using Some p False c(2)
            by (auto simp: move_h_def move_def c(1) f rc so(1) tn lt yields_def Let_def)
        next
          case ms: (Some moves)
          show ?thesis
          proof (cases "find (\<lambda>m. mto m = to) moves")
            case None
            then show ?thesis using Some p False ms c(2)
              by (auto simp: move_h_def move_def c(1) f rc so(1) tn lt yields_def Let_def)
          next
            case mv: (Some mv)
            then show ?thesis using Some p False ms ap[of p mv]
              by (auto simp: move_h_def move_def c(1) f rc so(1) tn lt Let_def)
          qed
        qed
      qed
    qed
  qed
qed

text \<open>A new engine, and the opening move and an illegal move asked of it.\<close>

lemma fresh_lives: "lives (\<lambda>a. a < nxt (fst fresh_engine)) (fst fresh_engine) (snd fresh_engine)"
  by code_simp

lemma fresh_load: "load (fst fresh_engine) (snd fresh_engine) = Some initial_state"
  by code_simp

lemma fresh_getFEN: "getFEN (fst fresh_engine) (snd fresh_engine) = Some START_FEN"
  by code_simp

lemma fresh_e2_e4:
  "map_option (res_fen \<circ> fst) (move_h (fst fresh_engine) (snd fresh_engine) ''e2'' ''e4'' None)
   = Some ''rnbqkbnr/pppppppp/8/8/4P3/8/PPPP1PPP/RNBQKBNR b KQkq e3 0 1''"
  by code_simp

lemma fresh_e2_e5:
  "map_option (is_ok \<circ> fst) (move_h (fst fresh_engine) (snd fresh_engine) ''e2'' ''e5'' None) = Some False"
  by code_simp

section \<open>The claims\<close>

text \<open>
  C8. From the initial standard position, \<open>move(e2, e4)\<close> succeeds and the record of the
  result is \<open>rnbqkbnr/pppppppp/8/8/4P3/8/PPPP1PPP/RNBQKBNR b KQkq e3 0 1\<close>.
\<close>

theorem C8_e2e4_record:
  "map_option (\<lambda>res. (is_ok res, res_fen res))
     (Option.bind (parseFEN START_FEN) (\<lambda>p. move p ''e2'' ''e4'' None))
   = Some (True, ''rnbqkbnr/pppppppp/8/8/4P3/8/PPPP1PPP/RNBQKBNR b KQkq e3 0 1'')"
  by code_simp

text \<open>
  C4. The halfmove clock after a successful move is 0 when a pawn moved or a piece was
  captured, and one more than before otherwise. The code resets it on \<open>mv.captured\<close>,
  which no candidate of \<open>movesFrom\<close> carries: after 1. Nc3 d5 the knight takes the pawn
  on d5 (rank index 4, file index 3) and the clock goes from 0 to 1.
\<close>

theorem C4_capture_does_not_reset_clock:
  "Option.bind (play initial_state [(''b1'', ''c3''), (''d7'', ''d5'')])
     (\<lambda>p. map_option (\<lambda>res. (at (board p) 4 3, halfmove p, is_ok res, halfmove (res_state res)))
             (move p ''c3'' ''d5'' None))
   = Some (Some (Some CHR ''p''), Num 0, True, Num 1)"
  by code_simp

text \<open>
  C5. The move record of a successful capture carries the captured piece. In the same
  game the knight takes the pawn on d5 and the record's \<open>captured\<close> is \<open>null\<close>, the pawn
  being gone from d5 afterwards.
\<close>

theorem C5_capture_not_recorded:
  "Option.bind (play initial_state [(''b1'', ''c3''), (''d7'', ''d5'')])
     (\<lambda>p. map_option (\<lambda>res. (at (board p) 4 3, is_ok res, at (board (res_state res)) 4 3,
                              i_captured (res_move res)))
             (move p ''c3'' ''d5'' None))
   = Some (Some (Some CHR ''p''), True, Some (Some CHR ''N''), None)"
  by code_simp

text \<open>
  C1. For every position \<open>p\<close> reachable from the initial position,
  \<open>parseFEN(boardToFEN(p))\<close> is \<open>p\<close> in every field: the board, the side to move, the
  four castling rights, the en-passant target, the halfmove clock and the fullmove number.
  (A castling text without any right is printed, and read back, as "-".)
\<close>

theorem C1_roundtrip:
  assumes "reachable p"
  shows "\<exists>q. Option.bind (boardToFEN p) parseFEN = Some q
           \<and> board q = board p \<and> turn q = turn p
           \<and> has_right CHR ''K'' q = has_right CHR ''K'' p
           \<and> has_right CHR ''Q'' q = has_right CHR ''Q'' p
           \<and> has_right CHR ''k'' q = has_right CHR ''k'' p
           \<and> has_right CHR ''q'' q = has_right CHR ''q'' p
           \<and> ep q = ep p \<and> halfmove q = halfmove p \<and> fullmove q = fullmove p"
proof -
  from fen_roundtrip[OF reachable_wf[OF assms]] obtain fen where
    f: "boardToFEN p = Some fen" "parseFEN fen = Some (canonical p)" by blast
  have "Option.bind (boardToFEN p) parseFEN = Some (canonical p)" by (simp add: f)
  moreover have "has_right c (canonical p) = has_right c p"
    if "c \<noteq> CHR ''-''" for c
    using that by (simp add: canonical_def has_right_def)
  ultimately show ?thesis by (simp add: canonical_def)
qed

theorem C1_roundtrip_witness:
  "reachable castled_state
   \<and> (\<exists>q. Option.bind (boardToFEN castled_state) parseFEN = Some q
           \<and> board q = board castled_state \<and> turn q = turn castled_state
           \<and> has_right CHR ''K'' q = has_right CHR ''K'' castled_state
           \<and> has_right CHR ''Q'' q = has_right CHR ''Q'' castled_state
           \<and> has_right CHR ''k'' q = has_right CHR ''k'' castled_state
           \<and> has_right CHR ''q'' q = has_right CHR ''q'' castled_state
           \<and> ep q = ep castled_state \<and> halfmove q = halfmove castled_state
           \<and> fullmove q = fullmove castled_state)"
proof -
  have r: "reachable castled_state" using play_reachable[OF reachable.start play_castled] .
  from C1_roundtrip[OF r] r show ?thesis by blast
qed

text \<open>
  C2. For every reachable position and every square \<open>s\<close>, every candidate \<open>m\<close> that
  \<open>movesFrom(s)\<close> returns is accepted: \<open>move({from: s, to: m.to})\<close> returns a result
  with \<open>ok\<close> true.
\<close>

theorem C2_candidates_accepted:
  assumes "reachable p" and "movesFrom p s = Some ms" and "m \<in> set ms"
  shows "\<exists>res. move p s (mto m) None = Some res \<and> is_ok res"
proof -
  have wf: "wf_state p" using assms(1) by (rule reachable_wf)
  then have w: "wf_board (board p)" "wf_ep (ep p)" by (simp_all add: wf_state_def)
  from move_candidate[OF w assms(2,3), of None] show ?thesis by (auto simp: is_ok_def)
qed

theorem C2_candidates_accepted_witness:
  "reachable initial_state
   \<and> movesFrom initial_state ''e2''
       = Some [\<lparr> mfrom = ''e2'', mto = ''e3'', mep = False, mcastle = None, mcaptured = None \<rparr>,
               \<lparr> mfrom = ''e2'', mto = ''e4'', mep = False, mcastle = None, mcaptured = None \<rparr>]
   \<and> (\<exists>res. move initial_state ''e2'' ''e4'' None = Some res \<and> is_ok res)"
proof -
  let ?m = "\<lparr> mfrom = ''e2'', mto = ''e4'', mep = False, mcastle = None, mcaptured = None \<rparr>"
  have "?m \<in> set [\<lparr> mfrom = ''e2'', mto = ''e3'', mep = False, mcastle = None, mcaptured = None \<rparr>, ?m]"
    by simp
  from C2_candidates_accepted[OF reachable.start e2_moves this] show ?thesis
    using reachable.start e2_moves by simp
qed

text \<open>
  C3. For every reachable position and every request whose origin is a square of the
  board, \<open>move\<close> does not raise but returns a result, and it validates in this order:
  reason "empty" when the origin holds no piece, otherwise "turn" when the colour of
  the piece is not the side to move, otherwise "illegal" when the destination is not
  among those of \<open>movesFrom(from)\<close>. From the initial position \<open>move(e7, e5)\<close> fails with
  "turn" and \<open>move(e2, e5)\<close> with "illegal".
\<close>

theorem C3_validation_order:
  assumes "reachable p" and "sqToFR from = (af, ar)" and "on_board af ar"
  shows "(\<exists>res. move p from to promotion = Some res)
       \<and> (at (board p) ar af = Some None \<longrightarrow> move p from to promotion = Some (Fail ''empty''))
       \<and> (\<forall>pc. at (board p) ar af = Some (Some pc) \<and> color_of pc \<noteq> turn p
              \<longrightarrow> move p from to promotion = Some (Fail ''turn''))
       \<and> (\<forall>pc ms. at (board p) ar af = Some (Some pc) \<and> color_of pc = turn p
              \<and> movesFrom p from = Some ms \<and> to \<notin> mto ` set ms
              \<longrightarrow> move p from to promotion = Some (Fail ''illegal''))
       \<and> move initial_state ''e7'' ''e5'' None = Some (Fail ''turn'')
       \<and> move initial_state ''e2'' ''e5'' None = Some (Fail ''illegal'')"
proof -
  have wf: "wf_state p" using assms(1) by (rule reachable_wf)
  then have w: "wf_board (board p)" "wf_ep (ep p)" by (simp_all add: wf_state_def)
  have r: "0 \<le> ar" "ar < 8" using assms(3) by (auto simp: on_board_def)
  note u = move_unfold[OF assms(2), of p to promotion]
  have 1: "\<exists>res. move p from to promotion = Some res" using move_total[OF w assms(2) r] .
  have 2: "move p from to promotion = Some (Fail ''empty'')" if "at (board p) ar af = Some None"
    using u that by simp
  have 3: "move p from to promotion = Some (Fail ''turn'')"
    if "at (board p) ar af = Some (Some pc)" "color_of pc \<noteq> turn p" for pc
    using u that color_mismatch[of pc "turn p"] by simp
  have 4: "move p from to promotion = Some (Fail ''illegal'')"
    if "at (board p) ar af = Some (Some pc)" "color_of pc = turn p"
       "movesFrom p from = Some ms" "to \<notin> mto ` set ms" for pc ms
  proof -
    have "find (\<lambda>m. mto m = to) ms = None" using that(4) by (auto simp: find_None_iff)
    then show ?thesis using u that(1,2,3) color_mismatch[of pc "turn p"] by simp
  qed
  show ?thesis using 1 2 3 4 e7_e5_turn e2_e5_illegal by blast
qed

theorem C3_validation_order_witness:
  "reachable initial_state \<and> sqToFR ''e2'' = (4, 1) \<and> on_board 4 1
   \<and> at (board initial_state) 1 4 = Some (Some CHR ''P'') \<and> color_of CHR ''P'' = turn initial_state
   \<and> ''e5'' \<notin> mto ` set [\<lparr> mfrom = ''e2'', mto = ''e3'', mep = False, mcastle = None, mcaptured = None \<rparr>,
                             \<lparr> mfrom = ''e2'', mto = ''e4'', mep = False, mcastle = None, mcaptured = None \<rparr>]
   \<and> move initial_state ''e2'' ''e5'' None = Some (Fail ''illegal'')
   \<and> (\<exists>res. move initial_state ''e2'' ''e4'' None = Some res)"
proof -
  have ob: "on_board 4 1" by (simp add: on_board_def)
  have pc: "at (board initial_state) 1 4 = Some (Some CHR ''P'')" by code_simp
  have col: "color_of CHR ''P'' = turn initial_state" by code_simp
  have nin: "''e5'' \<notin> mto ` set [\<lparr> mfrom = ''e2'', mto = ''e3'', mep = False, mcastle = None, mcaptured = None \<rparr>,
                             \<lparr> mfrom = ''e2'', mto = ''e4'', mep = False, mcastle = None, mcaptured = None \<rparr>]"
    by simp
  from C3_validation_order[OF reachable.start e2_square ob, of "''e5''" None] pc col e2_moves nin
  have "move initial_state ''e2'' ''e5'' None = Some (Fail ''illegal'')" by blast
  moreover from C3_validation_order[OF reachable.start e2_square ob, of "''e4''" None]
  have "\<exists>res. move initial_state ''e2'' ''e4'' None = Some res" by blast
  ultimately show ?thesis using reachable.start e2_square ob pc col nin by blast
qed

text \<open>
  C6. After a successful move from a reachable position the en-passant target is set
  if and only if the move was a pawn advancing two squares, and it is then the square
  the pawn passed over; every other successful move clears it.
\<close>

theorem C6_en_passant_target:
  assumes "reachable p" and "move p from to promotion = Some (Ok s fen info)"
  shows "(ep_target s \<noteq> None \<longleftrightarrow> two_square_pawn_advance p from to)
       \<and> (two_square_pawn_advance p from to \<longrightarrow> ep_target s = Some (passed_over from to))"
proof -
  have wf: "wf_state p" using assms(1) by (rule reachable_wf)
  then have w: "wf_board (board p)" "wf_ep (ep p)" by (simp_all add: wf_state_def)
  from move_Ok_D[OF w assms(2)] obtain af ar bf br pc m mv b5 where
    d: "sqToFR from = (af, ar)" "sqToFR to = (bf, br)" "at (board p) ar af = Some (Some pc)"
       "push_ok pc af ar m" "pf m = bf" "pr m = br"
       "s = next_state p b5 pc af ar bf br mv" by blast
  from at_piece_file[OF wf_board_shape[OF w(1)] d(3)] have ain: "0 \<le> af" "af < 8" "0 \<le> ar" "ar < 8" by auto
  have eps: "ep s = (if toLowerCase pc = CHR ''p'' \<and> \<bar>br - ar\<bar> = 2
             then sq af (ar + dir_of (isWhitePiece pc)) else ''-'')"
    unfolding d(7) by (simp add: next_state_def)
  have tw: "two_square_pawn_advance p from to \<longleftrightarrow> toLowerCase pc = CHR ''p'' \<and> bf = af \<and> \<bar>br - ar\<bar> = 2"
    using d(1-3) by (simp add: two_square_pawn_advance_def)
  show ?thesis
  proof (cases "toLowerCase pc = CHR ''p'' \<and> \<bar>br - ar\<bar> = 2")
    case True
    from double_push_row[OF d(4,6) _ _ ain(3,4)] True have
      dp: "br = ar + 2 * dir_of (isWhitePiece pc)" "pf m = af"
          "0 \<le> ar + dir_of (isWhitePiece pc)" "ar + dir_of (isWhitePiece pc) < 8" by auto
    have mid: "(ar + br) div 2 = ar + dir_of (isWhitePiece pc)" unfolding dp(1) by simp
    have "ep s = sq af (ar + dir_of (isWhitePiece pc))" using eps True by simp
    moreover have "sq af (ar + dir_of (isWhitePiece pc)) \<noteq> ''-'' \<and> sq af (ar + dir_of (isWhitePiece pc)) \<noteq> []"
      using label_not_dash[OF ain(1,2) dp(3,4)] .
    moreover have "passed_over from to = sq af (ar + dir_of (isWhitePiece pc))"
      using d(1,2) mid by (simp add: passed_over_def)
    moreover have "two_square_pawn_advance p from to" using tw True dp(2) d(5) by simp
    ultimately show ?thesis by (simp add: ep_target_def)
  next
    case False
    then have "ep s = ''-''" unfolding eps by (rule if_not_P)
    moreover have "\<not> two_square_pawn_advance p from to" using tw False by blast
    ultimately show ?thesis by (simp add: ep_target_def)
  qed
qed

theorem C6_en_passant_target_witness:
  "reachable initial_state
   \<and> (\<exists>s fen info. move initial_state ''e2'' ''e4'' None = Some (Ok s fen info)
        \<and> two_square_pawn_advance initial_state ''e2'' ''e4''
        \<and> ep_target s = Some (passed_over ''e2'' ''e4'') \<and> passed_over ''e2'' ''e4'' = ''e3'')"
proof -
  have tw: "two_square_pawn_advance initial_state ''e2'' ''e4''" by code_simp
  have po: "passed_over ''e2'' ''e4'' = ''e3''" by code_simp
  from e2_e4_ok obtain res where res: "move initial_state ''e2'' ''e4'' None = Some res" "is_ok res"
    by auto
  from is_ok_Ok[OF res(2)] res(1)
  have mv: "move initial_state ''e2'' ''e4'' None = Some (Ok (res_state res) (res_fen res) (res_move res))"
    by simp
  from C6_en_passant_target[OF reachable.start mv] tw
  have "ep_target (res_state res) = Some (passed_over ''e2'' ''e4'')" by blast
  with mv tw po reachable.start show ?thesis by blast
qed




text \<open>
  C9. For two snapshots \<open>before\<close> and \<open>after\<close> and a square where \<open>before\<close> holds a piece
  that \<open>after\<close> does not hold there, the matcher maps the label of that square to the
  label of the first square, ranks 0 to 7 and files 0 to 7 within a rank, that holds the
  same symbol in \<open>after\<close> and did not hold it in \<open>before\<close>; when there is no such square
  the origin has no entry.
\<close>

theorem C9_matcher_first_square:
  assumes "length (board before) = 8" and "length (board after) = 8"
    and "r < 8" and "f < 8"
    and "at (board before) (int r) (int f) = Some (Some pc)"
    and "at (board after) (int r) (int f) \<noteq> Some (Some pc)"
  shows "\<exists>m. movingMap after before = Some m \<and>
           (case m (sq (int f) (int r)) of
              None \<Rightarrow> \<forall>x. fst x < 8 \<and> snd x < 8 \<longrightarrow> \<not> takes (board after) (board before) pc x
            | Some d \<Rightarrow>
                \<exists>x. fst x < 8 \<and> snd x < 8 \<and> d = sq (int (snd x)) (int (fst x))
                   \<and> takes (board after) (board before) pc x
                   \<and> (\<forall>y. fst y < 8 \<and> snd y < 8 \<and> earlier y x
                          \<longrightarrow> \<not> takes (board after) (board before) pc y))"
proof -
  have in_scan: "\<forall>x \<in> set SCAN. fst x < 8 \<and> snd x < 8" by (simp add: SCAN_set)
  from moving_from_entries[OF assms(1,2) in_scan SCAN_distinct, of Map.empty] obtain m where
    m: "moving_from (board before) (board after) Map.empty SCAN = Some m"
       "\<forall>x. fst x < 8 \<and> snd x < 8 \<longrightarrow>
              m (sq (int (snd x)) (int (fst x)))
                = (if x \<in> set SCAN then entry (board before) (board after) x (Map.empty (sq (int (snd x)) (int (fst x))))
                   else Map.empty (sq (int (snd x)) (int (fst x))))" by blast
  have "(r, f) \<in> set SCAN" using assms(3,4) by (simp add: SCAN_set)
  with m(2) assms(3,4) have e: "m (sq (int f) (int r)) = entry (board before) (board after) (r, f) None"
    by fastforce
  from findPiece_first[OF assms(2,1), of pc r f] obtain res where
    res: "findPiece (board after) pc r f (board before) = Some res"
      "case res of
              None \<Rightarrow> \<forall>x. fst x < 8 \<and> snd x < 8 \<longrightarrow> \<not> takes (board after) (board before) pc x
            | Some x \<Rightarrow> fst x < 8 \<and> snd x < 8 \<and> takes (board after) (board before) pc x
                         \<and> (\<forall>y. fst y < 8 \<and> snd y < 8 \<and> earlier y x \<longrightarrow> \<not> takes (board after) (board before) pc y)"
    by blast
  have "case m (sq (int f) (int r)) of
              None \<Rightarrow> \<forall>x. fst x < 8 \<and> snd x < 8 \<longrightarrow> \<not> takes (board after) (board before) pc x
            | Some d \<Rightarrow>
                \<exists>x. fst x < 8 \<and> snd x < 8 \<and> d = sq (int (snd x)) (int (fst x))
                   \<and> takes (board after) (board before) pc x
                   \<and> (\<forall>y. fst y < 8 \<and> snd y < 8 \<and> earlier y x
                          \<longrightarrow> \<not> takes (board after) (board before) pc y)"
  proof (cases res)
    case None
    then have "m (sq (int f) (int r)) = None" using e assms(5,6) res(1) by (simp add: entry_def)
    then show ?thesis using res(2) None by simp
  next
    case (Some x)
    then have "m (sq (int f) (int r)) = Some (sq (int (snd x)) (int (fst x)))"
      using e assms(5,6) res(1) by (simp add: entry_def)
    moreover have "fst x < 8 \<and> snd x < 8 \<and> sq (int (snd x)) (int (fst x)) = sq (int (snd x)) (int (fst x))
                   \<and> takes (board after) (board before) pc x
                   \<and> (\<forall>y. fst y < 8 \<and> snd y < 8 \<and> earlier y x
                          \<longrightarrow> \<not> takes (board after) (board before) pc y)"
      using res(2) Some by simp
    ultimately show ?thesis by (simp only: option.case) blast
  qed
  with m(1) show ?thesis by (simp add: movingMap_def)
qed

theorem C9_matcher_first_square_witness:
  "length (board initial_state) = 8 \<and> length (board e4_state) = 8 \<and> (1::nat) < 8 \<and> (4::nat) < 8
   \<and> at (board initial_state) (int 1) (int 4) = Some (Some CHR ''P'')
   \<and> at (board e4_state) (int 1) (int 4) \<noteq> Some (Some CHR ''P'')
   \<and> (\<exists>m. movingMap e4_state initial_state = Some m \<and>
           (case m (sq (int 4) (int 1)) of
              None \<Rightarrow> \<forall>x. fst x < 8 \<and> snd x < 8 \<longrightarrow> \<not> takes (board e4_state) (board initial_state) CHR ''P'' x
            | Some d \<Rightarrow>
                \<exists>x. fst x < 8 \<and> snd x < 8 \<and> d = sq (int (snd x)) (int (fst x))
                   \<and> takes (board e4_state) (board initial_state) CHR ''P'' x
                   \<and> (\<forall>y. fst y < 8 \<and> snd y < 8 \<and> earlier y x
                          \<longrightarrow> \<not> takes (board e4_state) (board initial_state) CHR ''P'' y)))"
proof -
  have h: "length (board initial_state) = 8" "length (board e4_state) = 8" "(1::nat) < 8" "(4::nat) < 8"
    "at (board initial_state) (int 1) (int 4) = Some (Some CHR ''P'')"
    "at (board e4_state) (int 1) (int 4) \<noteq> Some (Some CHR ''P'')"
    by code_simp+
  from C9_matcher_first_square[OF h] h show ?thesis by blast
qed

text \<open>
  C10. \<open>move\<close> leaves the engine it is called on as it was. For an engine \<open>this\<close> whose
  objects are in the store \<open>h\<close> and hold the position \<open>st\<close>, and for every request: the
  call on the store returns exactly when \<open>move\<close> on the value \<open>st\<close> returns, with the
  same result, be it a success or a failure; every object that was in the store before the
  call is unchanged, so the engine still holds \<open>st\<close> and \<open>getFEN\<close> gives the same
  record as before the call. The new position is in the result only.
\<close>

theorem C10_move_leaves_engine:
  assumes "lives (\<lambda>a. a < nxt h) h this" and "load h this = Some st"
  shows "(move_h h this from to promotion = None \<longleftrightarrow> move st from to promotion = None)
       \<and> (\<forall>res h'. move_h h this from to promotion = Some (res, h')
            \<longrightarrow> move st from to promotion = Some res
              \<and> agree (nxt h) h h'
              \<and> load h' this = Some st
              \<and> getFEN h' this = getFEN h this)"
proof -
  note y = move_h_yields[OF assms, of "from" to promotion]
  have fr: "load h' this = Some st \<and> getFEN h' this = getFEN h this" if "agree (nxt h) h h'" for h'
    using load_agree(1)[OF assms(1) that] assms(2) by (simp add: getFEN_def)
  show ?thesis
  proof (cases "move st from to promotion")
    case None
    then show ?thesis using y by (simp add: yields_def)
  next
    case (Some res)
    with y obtain h' where "move_h h this from to promotion = Some (res, h')" "agree (nxt h) h h'"
      by (auto simp: yields_def)
    then show ?thesis using Some fr by auto
  qed
qed

theorem C10_move_leaves_engine_witness:
  "lives (\<lambda>a. a < nxt (fst fresh_engine)) (fst fresh_engine) (snd fresh_engine)
   \<and> load (fst fresh_engine) (snd fresh_engine) = Some initial_state
   \<and> (\<exists>res h'. move_h (fst fresh_engine) (snd fresh_engine) ''e2'' ''e4'' None = Some (res, h')
        \<and> res_fen res = ''rnbqkbnr/pppppppp/8/8/4P3/8/PPPP1PPP/RNBQKBNR b KQkq e3 0 1''
        \<and> getFEN h' (snd fresh_engine) = Some START_FEN)
   \<and> (\<exists>res h'. move_h (fst fresh_engine) (snd fresh_engine) ''e2'' ''e5'' None = Some (res, h')
        \<and> \<not> is_ok res
        \<and> getFEN h' (snd fresh_engine) = Some START_FEN)"
proof -
  let ?h = "fst fresh_engine" and ?e = "snd fresh_engine"
  from fresh_e2_e4 obtain res h' where
    r: "move_h ?h ?e ''e2'' ''e4'' None = Some (res, h')"
       "res_fen res = ''rnbqkbnr/pppppppp/8/8/4P3/8/PPPP1PPP/RNBQKBNR b KQkq e3 0 1''"
    by auto
  from fresh_e2_e5 obtain res2 h2 where
    q: "move_h ?h ?e ''e2'' ''e5'' None = Some (res2, h2)" "\<not> is_ok res2"
    by auto
  from C10_move_leaves_engine[OF fresh_lives fresh_load, of "''e2''" "''e4''" None] r(1)
  have 1: "getFEN h' ?e = Some START_FEN" by (simp add: fresh_getFEN)
  from C10_move_leaves_engine[OF fresh_lives fresh_load, of "''e2''" "''e5''" None] q(1)
  have 2: "getFEN h2 ?e = Some START_FEN" by (simp add: fresh_getFEN)
  show ?thesis using fresh_lives fresh_load r q 1 2 by blast
qed

end
